theory Spec2Isabelle
  imports Main "HOL-Library.AList"
begin

section \<open>Graph build coordination: the creation registry (graphTools.ts)\<close>

text \<open>
  Conventions of the embedding.
  \<^item> Times are JavaScript millisecond counts (\<open>Date.now()\<close>), modelled as \<open>int\<close>.
    A synchronous section of code reads the clock once: the reading is the parameter
    \<open>now\<close> of the function that embeds the section.
  \<^item> \<open>Math.floor(elapsedMs / (1000 * 60))\<close> is \<open>div\<close> on \<open>int\<close>, which rounds
    towards minus infinity as \<open>Math.floor\<close> does.
  \<^item> A JavaScript \<open>Map\<close> is an association list in insertion order: \<open>Map.get\<close> is
    \<open>map_of\<close>, \<open>Map.set\<close> is \<open>AList.update\<close> (replace in place, else append),
    \<open>Map.delete\<close> is \<open>AList.delete\<close>.
  \<^item> Console output is not modelled.
  \<^item> Requests and routines are modelled one at a time: the interleaving of concurrent
    requests on the shared registry is outside the model.
\<close>

subsection \<open>Data\<close>

text \<open>The value type of the global creation registry.\<close>

record entry =
  inProgress :: bool
  timestamp :: int
  phase :: string

text \<open>
  The legacy map \<open>graphCreationLocks\<close> is a \<open>Map<string, boolean | number>\<close>: the flag of
  a repository lives under its key, the start time under the key suffixed with
  \<open>_timestamp\<close>.
\<close>

datatype lock_value = LockFlag bool | LockTime int

text \<open>JavaScript truthiness and numeric coercion of such a value.\<close>

fun truthy :: "lock_value \<Rightarrow> bool" where
  "truthy (LockFlag b) = b"
| "truthy (LockTime n) = (n \<noteq> 0)"

fun toNumber :: "lock_value \<Rightarrow> int" where
  "toNumber (LockFlag b) = (if b then 1 else 0)"
| "toNumber (LockTime n) = n"

text \<open>The callback that \<open>startBackgroundCreation\<close> hands to \<open>setTimeout\<close>.\<close>

datatype task = CleanupLocks string

text \<open>
  The process state: both maps, the pending timers (due time and callback), and the log of
  repository URLs posted to the analysis service.
\<close>

record state =
  registry :: "(string \<times> entry) list"
  graphCreationLocks :: "(string \<times> lock_value) list"
  timers :: "(int \<times> task) list"
  posted :: "string list"

text \<open>The result of \<open>getCreationProgress\<close>; its first and last field are prefixed because
  \<open>entry\<close> already owns the names.\<close>

record progress =
  p_inProgress :: bool
  elapsedMinutes :: int
  estimatedRemaining :: string
  p_phase :: string

definition initial_state :: state where
  "initial_state = \<lparr>registry = [], graphCreationLocks = [], timers = [], posted = []\<rparr>"

subsection \<open>Registry operations\<close>

definition minutesSince :: "int \<Rightarrow> int \<Rightarrow> int" where
  "minutesSince now ts = (now - ts) div (1000 * 60)"

definition timestampKey :: "string \<Rightarrow> string" where
  "timestampKey repoKey = repoKey @ ''_timestamp''"

definition isCreationInProgress :: "string \<Rightarrow> int \<Rightarrow> state \<Rightarrow> bool \<times> state" where
  "isCreationInProgress repoKey now s =
     (case map_of (registry s) repoKey of
        Some e \<Rightarrow>
          if inProgress e then
            (if minutesSince now (timestamp e) > 20
             then (False, s\<lparr>registry := AList.delete repoKey (registry s)\<rparr>)
             else (True, s))
          else (False, s)
      | None \<Rightarrow> (False, s))"

definition clearStaleLocks :: "string \<Rightarrow> int \<Rightarrow> state \<Rightarrow> state" where
  "clearStaleLocks repoKey now s =
     (let s1 =
        (case map_of (registry s) repoKey of
           Some e \<Rightarrow>
             if minutesSince now (timestamp e) > 10
             then s\<lparr>registry := AList.delete repoKey (registry s),
                    graphCreationLocks :=
                      AList.delete (timestampKey repoKey)
                        (AList.delete repoKey (graphCreationLocks s))\<rparr>
             else s
         | None \<Rightarrow> s)
      in
        (case map_of (graphCreationLocks s1) (timestampKey repoKey) of
           Some legacyTimestamp \<Rightarrow>
             if truthy legacyTimestamp
                \<and> minutesSince now (toNumber legacyTimestamp) > 10
             then s1\<lparr>graphCreationLocks :=
                        AList.delete (timestampKey repoKey)
                          (AList.delete repoKey (graphCreationLocks s1))\<rparr>
             else s1
         | None \<Rightarrow> s1))"

text \<open>\<open>existing?.timestamp || Date.now()\<close>: a missing record and a zero timestamp both
  fall through to the clock.\<close>

definition setCreationLock :: "string \<Rightarrow> bool \<Rightarrow> int \<Rightarrow> state \<Rightarrow> state" where
  "setCreationLock repoKey status now s =
     (let reg =
        (if status then
           (let ts = (case map_of (registry s) repoKey of
                        Some existing \<Rightarrow>
                          if timestamp existing \<noteq> 0 then timestamp existing else now
                      | None \<Rightarrow> now)
            in AList.update repoKey
                 \<lparr>inProgress = True, timestamp = ts, phase = ''Initializing analysis''\<rparr>
                 (registry s))
         else AList.delete repoKey (registry s));
         locks1 = AList.update repoKey (LockFlag status) (graphCreationLocks s);
         locks2 =
           (if status \<and> map_of locks1 (timestampKey repoKey) = None
            then AList.update (timestampKey repoKey) (LockTime now) locks1
            else locks1)
      in s\<lparr>registry := reg, graphCreationLocks := locks2\<rparr>)"

definition notInProgress :: progress where
  "notInProgress =
     \<lparr>p_inProgress = False, elapsedMinutes = 0, estimatedRemaining = ''N/A'',
      p_phase = ''Complete''\<rparr>"

definition getCreationProgress :: "string \<Rightarrow> int \<Rightarrow> state \<Rightarrow> progress \<times> state" where
  "getCreationProgress repoKey now s =
     (case map_of (registry s) repoKey of
        Some e \<Rightarrow>
          if inProgress e then
            (let m = minutesSince now (timestamp e) in
             if m > 20
             then (notInProgress, s\<lparr>registry := AList.delete repoKey (registry s)\<rparr>)
             else (\<lparr>p_inProgress = True, elapsedMinutes = m,
                    estimatedRemaining =
                      (if m < 10 then ''5-10 minutes'' else ''Should complete soon''),
                    p_phase =
                      (if m < 10 then ''Analyzing repository'' else ''Completing analysis'')\<rparr>,
                   s))
          else (notInProgress, s)
      | None \<Rightarrow> (notInProgress, s))"

subsection \<open>Promises\<close>

text \<open>
  A promise is modelled by how it settles: fulfilled with a value or rejected with an
  error message, some milliseconds after it was created, or never. A promise that settles
  in the very millisecond in which a timer is due loses the race to the timer.
\<close>

datatype 'a async = Resolved nat 'a | Rejected nat string | Pending

fun delay :: "nat \<Rightarrow> 'a async \<Rightarrow> 'a async" where
  "delay d (Resolved t v) = Resolved (d + t) v"
| "delay d (Rejected t e) = Rejected (d + t) e"
| "delay d Pending = Pending"

text \<open>\<open>await p\<close> followed by the rest of an async function.\<close>

fun abind :: "'a async \<Rightarrow> ('a \<Rightarrow> 'b async) \<Rightarrow> 'b async" where
  "abind (Resolved t v) f = delay t (f v)"
| "abind (Rejected t e) f = Rejected t e"
| "abind Pending f = Pending"

text \<open>\<open>try { await p } catch (e) { h }\<close>.\<close>

fun acatch :: "'a async \<Rightarrow> (string \<Rightarrow> 'a async) \<Rightarrow> 'a async" where
  "acatch (Resolved t v) h = Resolved t v"
| "acatch (Rejected t e) h = delay t (h e)"
| "acatch Pending h = Pending"

text \<open>\<open>try { p } finally { await q }\<close>: the outcome of \<open>p\<close> unless \<open>q\<close> rejects.\<close>

fun afinally :: "'a async \<Rightarrow> unit async \<Rightarrow> 'a async" where
  "afinally (Resolved t v) q =
     (case q of Resolved u _ \<Rightarrow> Resolved (t + u) v
              | Rejected u e \<Rightarrow> Rejected (t + u) e
              | Pending \<Rightarrow> Pending)"
| "afinally (Rejected t e) q =
     (case q of Resolved u _ \<Rightarrow> Rejected (t + u) e
              | Rejected u e' \<Rightarrow> Rejected (t + u) e'
              | Pending \<Rightarrow> Pending)"
| "afinally Pending q = Pending"

text \<open>
  \<open>Promise.race([p, new Promise((_, reject) => setTimeout(() => reject(new Error(msg)), d))])\<close>:
  the promise wins when it settles before the timer is due.
\<close>

fun race_timeout :: "nat \<Rightarrow> string \<Rightarrow> 'a async \<Rightarrow> 'a async" where
  "race_timeout d msg (Resolved t v) = (if t < d then Resolved t v else Rejected d msg)"
| "race_timeout d msg (Rejected t e) = (if t < d then Rejected t e else Rejected d msg)"
| "race_timeout d msg Pending = Rejected d msg"

text \<open>\<open>Promise.all\<close>: rejected with the earliest rejection, fulfilled when all are.\<close>

fun both :: "'a async \<Rightarrow> 'a list async \<Rightarrow> 'a list async" where
  "both (Resolved t v) (Resolved u vs) = Resolved (max t u) (v # vs)"
| "both (Rejected t e) (Rejected u e') = (if t \<le> u then Rejected t e else Rejected u e')"
| "both (Rejected t e) _ = Rejected t e"
| "both _ (Rejected u e') = Rejected u e'"
| "both _ _ = Pending"

fun promise_all :: "'a async list \<Rightarrow> 'a list async" where
  "promise_all [] = Resolved 0 []"
| "promise_all (p # ps) = both p (promise_all ps)"

subsection \<open>The supervised background build\<close>

text \<open>
  \<open>checkGraphExists\<close>: the argument is the outcome of connecting to the store and
  listing its graphs; any error is swallowed and reported as \<open>false\<close>.
\<close>

fun checkGraphExists :: "string \<Rightarrow> string list async \<Rightarrow> bool async" where
  "checkGraphExists graphName (Resolved t graphs) = Resolved t (graphName \<in> set graphs)"
| "checkGraphExists graphName (Rejected t e) = Resolved t False"
| "checkGraphExists graphName Pending = Pending"

text \<open>
  The collaborators of the build routine: the store's listing at the \<open>i\<close>-th call of
  \<open>checkGraphExists\<close> (call 0 is the double-check, calls 1 to 15 are the polls), and the
  POST to the analysis service, which yields \<open>response.ok\<close>.
\<close>

record build_env =
  listings :: "nat \<Rightarrow> string list async"
  analyze :: "bool async"

datatype build_outcome = AlreadyExists | Detected nat | NotDetected | Failed string

definition maxAttempts :: nat where
  "maxAttempts = 15"

function poll :: "build_env \<Rightarrow> string \<Rightarrow> nat \<Rightarrow> build_outcome async" where
  "poll env graphName attempts =
     (if attempts < maxAttempts then
        delay (30 * 1000)
          (abind (checkGraphExists graphName (listings env (attempts + 1)))
             (\<lambda>graphExists.
                if graphExists then Resolved 0 (Detected (attempts + 1))
                else poll env graphName (attempts + 1)))
      else Resolved 0 NotDetected)"
  by pat_completeness auto
termination
  by (relation "measure (\<lambda>(env, graphName, attempts). maxAttempts - attempts)") auto

declare poll.simps [simp del]

text \<open>The \<open>try\<close> block of \<open>startBackgroundCreation\<close>, and the block with its \<open>catch\<close>.\<close>

definition createGraph :: "build_env \<Rightarrow> string \<Rightarrow> build_outcome async" where
  "createGraph env graphName =
     abind (checkGraphExists graphName (listings env 0))
       (\<lambda>graphExists.
          if graphExists then Resolved 0 AlreadyExists
          else abind (race_timeout (10 * 60 * 1000) ''TimeoutError'' (analyze env))
                 (\<lambda>ok. if \<not> ok then Rejected 0 ''API request failed''
                       else poll env graphName 0))"

definition createGraphCaught :: "build_env \<Rightarrow> string \<Rightarrow> build_outcome async" where
  "createGraphCaught env graphName =
     acatch (createGraph env graphName) (\<lambda>e. Resolved 0 (Failed e))"

definition getGitHubRepoUrl :: "string \<Rightarrow> string \<Rightarrow> string" where
  "getGitHubRepoUrl ownerName repoName = ''https://github.com/'' @ ownerName @ ''/'' @ repoName"

text \<open>
  \<open>startBackgroundCreation\<close>, called at time \<open>now\<close> with both fields of the repository
  present. The result is the time at which the routine ends and the state at that time,
  the \<open>finally\<close> block included; \<open>None\<close> when the routine never ends. The routine
  sends its request to the analysis service when the double-check does not find the graph:
  the model logs the \<open>repo_url\<close> then.
\<close>

definition startBackgroundCreation ::
  "build_env \<Rightarrow> string \<Rightarrow> string \<Rightarrow> int \<Rightarrow> state \<Rightarrow> (int \<times> build_outcome \<times> state) option" where
  "startBackgroundCreation env owner repo now s =
     (let repoKey = owner @ ''/'' @ repo;
          s1 = setCreationLock repoKey True now s;
          s2 = s1\<lparr>graphCreationLocks :=
                    AList.update (timestampKey repoKey) (LockTime now) (graphCreationLocks s1)\<rparr>;
          s3 = (case checkGraphExists repo (listings env 0) of
                  Resolved t graphExists \<Rightarrow>
                    if graphExists then s2
                    else s2\<lparr>posted := posted s2 @ [getGitHubRepoUrl owner repo]\<rparr>
                | _ \<Rightarrow> s2)
      in case createGraphCaught env repo of
           Resolved d outcome \<Rightarrow>
             Some (now + int d, outcome,
                   s3\<lparr>timers := timers s3 @ [(now + int d + 2 * 60 * 1000, CleanupLocks repoKey)]\<rparr>)
         | Rejected d e \<Rightarrow>
             Some (now + int d, Failed e,
                   s3\<lparr>timers := timers s3 @ [(now + int d + 2 * 60 * 1000, CleanupLocks repoKey)]\<rparr>)
         | Pending \<Rightarrow> None)"

text \<open>Running a timer callback at time \<open>now\<close>, and all callbacks due by then.\<close>

fun runTask :: "task \<Rightarrow> int \<Rightarrow> state \<Rightarrow> state" where
  "runTask (CleanupLocks repoKey) now s =
     (let s1 = setCreationLock repoKey False now s
      in s1\<lparr>graphCreationLocks := AList.delete (timestampKey repoKey) (graphCreationLocks s1)\<rparr>)"

definition runDueTimers :: "int \<Rightarrow> state \<Rightarrow> state" where
  "runDueTimers now s =
     fold (\<lambda>(due, t) s'. runTask t now s')
       (filter (\<lambda>(due, t). due \<le> now) (timers s))
       (s\<lparr>timers := filter (\<lambda>(due, t). \<not> due \<le> now) (timers s)\<rparr>)"

subsection \<open>The registry invariant and example states\<close>

text \<open>
  Every record present is in progress, and no key occurs twice.
\<close>

definition registry_ok :: "state \<Rightarrow> bool" where
  "registry_ok s \<longleftrightarrow>
     distinct (map fst (registry s)) \<and> list_all (\<lambda>(k, e). inProgress e) (registry s)"

text \<open>The state of a fresh process after one \<open>setCreationLock(repoKey, true)\<close> at \<open>now\<close>.\<close>

definition freshLock :: "string \<Rightarrow> int \<Rightarrow> state" where
  "freshLock repoKey now = setCreationLock repoKey True now initial_state"

text \<open>Auxiliary: the timestamp that \<open>setCreationLock(repoKey, true)\<close> writes.\<close>

definition startStamp :: "string \<Rightarrow> int \<Rightarrow> state \<Rightarrow> int" where
  "startStamp k now s =
     (case map_of (registry s) k of
        Some e \<Rightarrow> if timestamp e \<noteq> 0 then timestamp e else now
      | None \<Rightarrow> now)"

text \<open>A store that lists the graph at the second poll, and an analysis service that accepts.\<close>

definition pollingEnv :: build_env where
  "pollingEnv =
     \<lparr>listings = (\<lambda>i. if i = 2 then Resolved 7 [''r''] else Resolved 7 []),
      analyze = Resolved 100 True\<rparr>"

section \<open>The usage-example tool (DefaultRepoHandler.ts)\<close>

subsection \<open>JavaScript strings and arrays\<close>

text \<open>
  Strings are lists of 8-bit code units. Of JavaScript's line terminators only line feed and
  carriage return exist in this alphabet.
\<close>

definition newline :: string where
  "newline = [CHR 0x0A]"

definition lineTerminator :: "char \<Rightarrow> bool" where
  "lineTerminator c \<longleftrightarrow> c = CHR 0x0A \<or> c = CHR 0x0D"

text \<open>\<open>s.split(c)\<close> for a one-character separator: the empty string yields one empty piece.\<close>

fun splitOn :: "char \<Rightarrow> string \<Rightarrow> string list" where
  "splitOn c [] = [[]]"
| "splitOn c (x # xs) =
     (if x = c then [] # splitOn c xs
      else (case splitOn c xs of
              [] \<Rightarrow> [[x]]
            | piece # pieces \<Rightarrow> (x # piece) # pieces))"

fun joinWith :: "string \<Rightarrow> string list \<Rightarrow> string" where
  "joinWith sep [] = []"
| "joinWith sep [x] = x"
| "joinWith sep (x # y # ys) = x @ sep @ joinWith sep (y # ys)"

text \<open>\<open>xs.slice(start, end)\<close>: a negative index counts from the end, and both are clamped.\<close>

definition jsSlice :: "int \<Rightarrow> int \<Rightarrow> 'a list \<Rightarrow> 'a list" where
  "jsSlice start end xs =
     (let len = int (length xs);
          k = (if start < 0 then max (len + start) 0 else min start len);
          final = (if end < 0 then max (len + end) 0 else min end len)
      in take (nat (final - k)) (drop (nat k) xs))"

text \<open>\<open>xs.slice(start)\<close>.\<close>

definition jsSliceFrom :: "int \<Rightarrow> 'a list \<Rightarrow> 'a list" where
  "jsSliceFrom start xs = jsSlice start (int (length xs)) xs"

text \<open>\<open>n.toString()\<close> for an integer, and \<open>s.padStart(w)\<close>.\<close>

definition digitChar :: "nat \<Rightarrow> char" where
  "digitChar d = ''0123456789'' ! d"

function showNat :: "nat \<Rightarrow> string" where
  "showNat n = (if n < 10 then [digitChar n] else showNat (n div 10) @ [digitChar (n mod 10)])"
  by pat_completeness auto
termination
  by (relation "measure id") auto

declare showNat.simps [simp del]

definition numberToString :: "int \<Rightarrow> string" where
  "numberToString i = (if i < 0 then ''-'' @ showNat (nat (- i)) else showNat (nat i))"

definition padStart :: "nat \<Rightarrow> string \<Rightarrow> string" where
  "padStart w s = replicate (w - length s) CHR '' '' @ s"

subsection \<open>The snippet\<close>

text \<open>
  Lines 234 to 258 of the handler: the window of five lines around the target, every line
  numbered and the target marked.
\<close>

definition snippetLine :: "int \<Rightarrow> int \<Rightarrow> string \<times> nat \<Rightarrow> string" where
  "snippetLine line startLine = (\<lambda>(codeLine, lineIndex).
     (let actualLineNumber = startLine + int lineIndex + 1;
          marker = (if actualLineNumber = line then ''>>>'' else ''   '')
      in marker @ '' '' @ padStart 3 (numberToString actualLineNumber) @ '': '' @ codeLine))"

definition renderSnippet :: "string \<Rightarrow> int \<Rightarrow> string" where
  "renderSnippet fileContent line =
     (let lines = splitOn CHR 0x0A fileContent;
          centerLine = line - 1;
          startLine = max 0 (centerLine - 5);
          endLine = min (int (length lines) - 1) (centerLine + 5);
          snippet = jsSlice startLine (endLine + 1) lines
      in joinWith newline
           (map (snippetLine line startLine) (zip snippet [0 ..< length snippet])))"

subsection \<open>The relative path\<close>

text \<open>
  \<open>path.match(/.*\/repositories\/[^\/]+\/(.+)$/)\<close> by backtracking, each piece of the
  pattern with the rest of the pattern as its continuation: a greedy repetition first tries
  to take one more character and falls back to the continuation where it stands.
\<close>

fun starGreedy :: "(char \<Rightarrow> bool) \<Rightarrow> (string \<Rightarrow> 'r option) \<Rightarrow> string \<Rightarrow> 'r option" where
  "starGreedy p k [] = k []"
| "starGreedy p k (c # cs) =
     (if p c then (case starGreedy p k cs of Some r \<Rightarrow> Some r | None \<Rightarrow> k (c # cs))
      else k (c # cs))"

fun plusGreedy :: "(char \<Rightarrow> bool) \<Rightarrow> (string \<Rightarrow> 'r option) \<Rightarrow> string \<Rightarrow> 'r option" where
  "plusGreedy p k [] = None"
| "plusGreedy p k (c # cs) = (if p c then starGreedy p k cs else None)"

fun literal :: "string \<Rightarrow> (string \<Rightarrow> 'r option) \<Rightarrow> string \<Rightarrow> 'r option" where
  "literal [] k s = k s"
| "literal (l # ls) k [] = None"
| "literal (l # ls) k (c # cs) = (if l = c then literal ls k cs else None)"

text \<open>The capturing group: the continuation also receives the text captured so far.\<close>

fun captureStar ::
  "(char \<Rightarrow> bool) \<Rightarrow> (string \<Rightarrow> string \<Rightarrow> 'r option) \<Rightarrow> string \<Rightarrow> string \<Rightarrow> 'r option" where
  "captureStar p k acc [] = k acc []"
| "captureStar p k acc (c # cs) =
     (if p c then (case captureStar p k (acc @ [c]) cs of
                     Some r \<Rightarrow> Some r
                   | None \<Rightarrow> k acc (c # cs))
      else k acc (c # cs))"

fun capturePlus ::
  "(char \<Rightarrow> bool) \<Rightarrow> (string \<Rightarrow> string \<Rightarrow> 'r option) \<Rightarrow> string \<Rightarrow> 'r option" where
  "capturePlus p k [] = None"
| "capturePlus p k (c # cs) = (if p c then captureStar p k [c] cs else None)"

definition endOfInput :: "string \<Rightarrow> string \<Rightarrow> string option" where
  "endOfInput captured s = (if s = [] then Some captured else None)"

definition dot :: "char \<Rightarrow> bool" where
  "dot c \<longleftrightarrow> \<not> lineTerminator c"

definition notSlash :: "char \<Rightarrow> bool" where
  "notSlash c \<longleftrightarrow> c \<noteq> CHR ''/''"

text \<open>The pattern after its leading \<open>.*\<close>, the pattern at one start position, and the
  search over the start positions from the left; the result is capture group 1.\<close>

definition afterPrefix :: "string \<Rightarrow> string option" where
  "afterPrefix =
     literal ''/repositories/''
       (plusGreedy notSlash (literal ''/'' (capturePlus dot endOfInput)))"

definition matchHere :: "string \<Rightarrow> string option" where
  "matchHere = starGreedy dot afterPrefix"

fun pathMatch :: "string \<Rightarrow> string option" where
  "pathMatch [] = matchHere []"
| "pathMatch (c # cs) =
     (case matchHere (c # cs) of Some r \<Rightarrow> Some r | None \<Rightarrow> pathMatch cs)"

definition relativePath :: "string \<Rightarrow> string" where
  "relativePath path =
     (case pathMatch path of
        Some group1 \<Rightarrow> group1
      | None \<Rightarrow> joinWith ''/'' (jsSliceFrom (- 2) (splitOn CHR ''/'' path)))"

text \<open>
  The pattern in words: the path is some prefix, \<open>/repositories/\<close>, one non-empty segment
  without a slash, a slash, and a non-empty rest without a line terminator.
\<close>

definition repositoriesPattern :: "string \<Rightarrow> string \<Rightarrow> string \<Rightarrow> string \<Rightarrow> bool" where
  "repositoriesPattern fullPath pre seg rest \<longleftrightarrow>
     fullPath = pre @ ''/repositories/'' @ seg @ ''/'' @ rest
     \<and> seg \<noteq> [] \<and> CHR ''/'' \<notin> set seg
     \<and> rest \<noteq> [] \<and> \<not> list_ex lineTerminator rest"

subsection \<open>Requests, collaborators and responses\<close>

text \<open>The two fields of \<open>RepoData\<close> that the tool reads; either may be missing.\<close>

record repoData =
  owner :: "string option"
  repo :: "string option"

text \<open>A row of the call-graph query.\<close>

record caller =
  name :: string
  path :: string
  line :: int

text \<open>
  The outcomes of the external calls of one request: the store listing behind
  \<open>checkGraphExists\<close>, \<open>createFalkorDBConnection\<close>, the row of \<open>graph.query\<close> (\<open>None\<close>
  when it carries no array of callers), \<open>getRepoBranch\<close>, \<open>fetchFileFromGitHub\<close> for the
  caller at an index (given branch and relative path; \<open>None\<close> is a result that is not a
  string), \<open>client.close()\<close> and \<open>graphService.disconnect()\<close>.
\<close>

record handler_env =
  listing :: "string list async"
  connection :: "unit async"
  queryRow :: "caller list option async"
  repoBranch :: "string async"
  fetchFile :: "nat \<Rightarrow> string \<Rightarrow> string \<Rightarrow> string option async"
  closing :: "unit async"
  disconnecting :: "unit async"

text \<open>
  One constructor for each message template of the tool, with the values interpolated
  into it.
\<close>

datatype response =
    InvalidRepository
  | StillInProgress string progress string
  | NoCallingFunctions string
  | CodeExamples string nat "string list"
  | SearchTimeout string
  | CreationInProgress string progress string
  | StartingAnalysis string string
  | ProcessingError string string

subsection \<open>Enriching one caller\<close>

definition fallbackSnippet :: "string \<Rightarrow> string \<Rightarrow> int \<Rightarrow> string \<Rightarrow> string" where
  "fallbackSnippet callerName relPath lineNo functionName =
     ''Function: '' @ callerName @ newline
     @ ''File: '' @ relPath @ '':'' @ numberToString lineNo @ newline
     @ ''Calls: '' @ functionName @ newline @ newline
     @ ''(Code content temporarily unavailable)''"

definition indent :: string where
  "indent = replicate 28 CHR '' ''"

definition exampleText ::
  "nat \<Rightarrow> string \<Rightarrow> string \<Rightarrow> int \<Rightarrow> string \<Rightarrow> string \<Rightarrow> string" where
  "exampleText index callerName relPath lineNo functionName codeSnippet =
     ''## Code Example '' @ numberToString (int index + 1) @ '': '' @ callerName @ newline
     @ newline
     @ indent @ ''File: '' @ relPath @ '':'' @ numberToString lineNo @ newline
     @ indent @ ''Calls: '' @ functionName @ newline
     @ newline
     @ indent @ ''```'' @ newline
     @ indent @ codeSnippet @ newline
     @ indent @ ''```'' @ newline
     @ indent"

text \<open>The \<open>try\<close> block of the callback: the fetch raced against the 5 second timer, then
  the snippet, or an error for a result that is empty or not a string.\<close>

definition snippetOf :: "string option async \<Rightarrow> int \<Rightarrow> string async" where
  "snippetOf fetchPromise lineNo =
     abind (race_timeout 5000 ''GitHub API timeout'' fetchPromise)
       (\<lambda>fileContent.
          case fileContent of
            Some content \<Rightarrow>
              if content \<noteq> [] then Resolved 0 (renderSnippet content lineNo)
              else Rejected 0 ''File content not found''
          | None \<Rightarrow> Rejected 0 ''File content not found'')"

text \<open>The callback mapped over the callers.\<close>

definition codeExample ::
  "handler_env \<Rightarrow> string \<Rightarrow> string \<Rightarrow> nat \<Rightarrow> caller \<Rightarrow> string async" where
  "codeExample env functionName branch index c =
     (let rel = relativePath (path c);
          codeSnippet =
            acatch (snippetOf (fetchFile env index branch rel) (line c))
              (\<lambda>error. Resolved 0 (fallbackSnippet (name c) rel (line c) functionName))
      in abind codeSnippet
           (\<lambda>text. Resolved 0 (exampleText index (name c) rel (line c) functionName text)))"

text \<open>
  Auxiliary: the time after which a promise raced against a timer of \<open>d\<close> ms has settled,
  and the time after which \<open>Promise.all\<close> over the enrichment of the callers has settled
  (each enrichment settles with its fetch or with the 5 second timer).
\<close>

definition racedTime :: "nat \<Rightarrow> 'a async \<Rightarrow> nat" where
  "racedTime d p = (case p of Resolved t v \<Rightarrow> min t d | Rejected t e \<Rightarrow> min t d | Pending \<Rightarrow> d)"

definition enrichmentTime :: "handler_env \<Rightarrow> string \<Rightarrow> caller list \<Rightarrow> nat" where
  "enrichmentTime env branch callers =
     foldr max
       (map (\<lambda>(c, index). racedTime 5000 (fetchFile env index branch (relativePath (path c))))
          (zip callers [0 ..< length callers]))
       0"

subsection \<open>The pipeline behind the 8 second deadline\<close>

definition getFunctionInfo :: "caller list option async \<Rightarrow> caller list async" where
  "getFunctionInfo result =
     abind result (\<lambda>row. Resolved 0 (case row of Some callers \<Rightarrow> callers | None \<Rightarrow> []))"

text \<open>
  The body of the inner \<open>try\<close>, entered at time \<open>now\<close>: the promise of the response and the
  state once the body has run as far as it gets (it reads the registry when the query
  returns no caller).
\<close>

definition lookup ::
  "handler_env \<Rightarrow> string \<Rightarrow> string \<Rightarrow> int \<Rightarrow> state \<Rightarrow> response async \<times> state" where
  "lookup env repoKey functionName now s =
     (case getFunctionInfo (queryRow env) of
        Resolved t callers \<Rightarrow>
          if callers = [] then
            (let (creationProgress, s') = getCreationProgress repoKey (now + int t) s
             in (Resolved t
                   (if p_inProgress creationProgress
                    then StillInProgress repoKey creationProgress functionName
                    else NoCallingFunctions functionName),
                 s'))
          else
            (delay t
               (abind (repoBranch env)
                  (\<lambda>branch.
                     abind (promise_all
                              (map (\<lambda>(c, index). codeExample env functionName branch index c)
                                 (zip callers [0 ..< length callers])))
                       (\<lambda>codeExamples.
                          Resolved 0 (CodeExamples functionName (length callers) codeExamples)))),
             s)
      | Rejected t e \<Rightarrow> (Rejected t e, s)
      | Pending \<Rightarrow> (Pending, s))"

text \<open>The async function that is raced: connect, run the body, close in \<open>finally\<close>.\<close>

definition pipeline ::
  "handler_env \<Rightarrow> string \<Rightarrow> string \<Rightarrow> int \<Rightarrow> state \<Rightarrow> response async \<times> state" where
  "pipeline env repoKey functionName now s =
     (case connection env of
        Resolved t u \<Rightarrow>
          (let (body, s') = lookup env repoKey functionName (now + int t) s
           in (delay t (afinally body (closing env)), s'))
      | Rejected t e \<Rightarrow> (Rejected t e, s)
      | Pending \<Rightarrow> (Pending, s))"

text \<open>The race against the 8 second timer, and the \<open>catch\<close> around it.\<close>

definition graphExistsBranch ::
  "handler_env \<Rightarrow> string \<Rightarrow> string \<Rightarrow> int \<Rightarrow> state \<Rightarrow> response async \<times> state" where
  "graphExistsBranch env repoKey functionName now s =
     (let (operation, s') = pipeline env repoKey functionName now s
      in (acatch (race_timeout 8000 ''Operation timeout'' operation)
            (\<lambda>error. Resolved 0 (SearchTimeout functionName)),
          s'))"

subsection \<open>The branch for a missing graph\<close>

text \<open>
  Lines 314 to 425, run at time \<open>now\<close>. The request to the analysis service is fired and
  not awaited: the model logs its \<open>repo_url\<close>.
\<close>

definition graphMissingBranch ::
  "string \<Rightarrow> string \<Rightarrow> string \<Rightarrow> int \<Rightarrow> state \<Rightarrow> response \<times> state" where
  "graphMissingBranch ownerName repoName functionName now s =
     (let repoKey = ownerName @ ''/'' @ repoName;
          s1 = clearStaleLocks repoKey now s;
          (progress, s2) = getCreationProgress repoKey now s1;
          s3 = (if p_inProgress progress \<and> elapsedMinutes progress \<ge> 5
                then (let s' = setCreationLock repoKey False now s2
                      in s'\<lparr>registry := AList.delete repoKey (registry s')\<rparr>)
                else s2);
          (finalProgress, s4) = getCreationProgress repoKey now s3
      in if p_inProgress finalProgress
         then (CreationInProgress repoKey finalProgress functionName, s4)
         else (let s5 = setCreationLock repoKey True now s4
               in (StartingAnalysis repoKey functionName,
                   s5\<lparr>posted := posted s5 @ [getGitHubRepoUrl ownerName repoName]\<rparr>)))"

subsection \<open>The tool callback\<close>

text \<open>\<open>s.trim() === ""\<close>.\<close>

definition whiteSpace :: "char \<Rightarrow> bool" where
  "whiteSpace c \<longleftrightarrow>
     c \<in> {CHR 0x09, CHR 0x0A, CHR 0x0B, CHR 0x0C, CHR 0x0D, CHR 0x20, CHR 0xA0}"

definition blank :: "string \<Rightarrow> bool" where
  "blank s \<longleftrightarrow> list_all whiteSpace s"

text \<open>
  \<open>fetchUsageCodeExamples\<close>, called at time \<open>now\<close>: validation, the existence check, one
  of the two branches, and \<open>disconnect\<close> in the outer \<open>finally\<close>. No step inside the outer
  \<open>try\<close> rejects, so its \<open>catch\<close> is never entered.
\<close>

definition fetchUsageCodeExamples ::
  "handler_env \<Rightarrow> repoData \<Rightarrow> string \<Rightarrow> int \<Rightarrow> state \<Rightarrow> response async \<times> state" where
  "fetchUsageCodeExamples env repoData functionName now s =
     (case (owner repoData, repo repoData) of
        (Some ownerName, Some repoName) \<Rightarrow>
          if blank ownerName \<or> blank repoName
          then (afinally (Resolved 0 InvalidRepository) (disconnecting env), s)
          else
            (case checkGraphExists repoName (listing env) of
               Resolved t graphExists \<Rightarrow>
                 (let (result, s') =
                    (if graphExists
                     then graphExistsBranch env (ownerName @ ''/'' @ repoName) functionName
                            (now + int t) s
                     else (let (r, s') = graphMissingBranch ownerName repoName functionName
                                           (now + int t) s
                           in (Resolved 0 r, s')))
                  in (delay t (afinally result (disconnecting env)), s'))
             | Rejected t e \<Rightarrow>
                 (afinally (Resolved t (ProcessingError functionName e)) (disconnecting env), s)
             | Pending \<Rightarrow> (Pending, s))
      | _ \<Rightarrow> (afinally (Resolved 0 InvalidRepository) (disconnecting env), s))"

section \<open>Example requests and files\<close>

text \<open>Example requests: a repository, a store without its graph, and a store that has the
  graph but refuses the connection of the pipeline.\<close>

definition exampleRepo :: repoData where
  "exampleRepo = \<lparr>owner = Some ''o'', repo = Some ''r''\<rparr>"

definition absentGraphEnv :: handler_env where
  "absentGraphEnv =
     \<lparr>listing = Resolved 10 [], connection = Pending, queryRow = Pending,
      repoBranch = Pending, fetchFile = (\<lambda>index branch rel. Pending),
      closing = Pending, disconnecting = Resolved 2 ()\<rparr>"

definition refusedEnv :: handler_env where
  "refusedEnv =
     \<lparr>listing = Resolved 10 [''r''], connection = Rejected 3 ''connection refused'',
      queryRow = Pending, repoBranch = Pending, fetchFile = (\<lambda>index branch rel. Pending),
      closing = Pending, disconnecting = Resolved 2 ()\<rparr>"

text \<open>A store that has the graph and no caller of the function; its connection closes
  after one millisecond, or after nine seconds.\<close>

definition quickEnv :: handler_env where
  "quickEnv =
     \<lparr>listing = Resolved 10 [''r''], connection = Resolved 5 (), queryRow = Resolved 20 None,
      repoBranch = Pending, fetchFile = (\<lambda>index branch rel. Pending),
      closing = Resolved 1 (), disconnecting = Resolved 2 ()\<rparr>"

definition slowEnv :: handler_env where
  "slowEnv = quickEnv\<lparr>closing := Resolved 9000 ()\<rparr>"

text \<open>A file of three lines.\<close>

definition threeLines :: string where
  "threeLines = ''a'' @ newline @ ''b'' @ newline @ ''c''"

text \<open>Two callers, and a request in which the file of the first caller never arrives
  while the file of the second arrives after 40 ms.\<close>

definition twoCallers :: "caller list" where
  "twoCallers =
     [\<lparr>name = ''f'', path = ''/x/repositories/r/src/a.ts'', line = 2\<rparr>,
      \<lparr>name = ''g'', path = ''/x/repositories/r/src/b.ts'', line = 1\<rparr>]"

definition degradedEnv :: handler_env where
  "degradedEnv =
     \<lparr>listing = Resolved 10 [''r''], connection = Resolved 5 (),
      queryRow = Resolved 20 (Some twoCallers), repoBranch = Resolved 30 ''main'',
      fetchFile = (\<lambda>index branch rel. if index = 0 then Pending
                                        else Resolved 40 (Some threeLines)),
      closing = Resolved 1 (), disconnecting = Resolved 2 ()\<rparr>"

text \<open>The same two callers behind a slower store: connecting, querying and the branch
  lookup take 3.5 seconds together. In the first request both files arrive after 40 ms, in
  the second the file of the first caller never arrives.\<close>

definition promptEnv :: handler_env where
  "promptEnv =
     \<lparr>listing = Resolved 10 [''r''], connection = Resolved 1000 (),
      queryRow = Resolved 1500 (Some twoCallers), repoBranch = Resolved 1000 ''main'',
      fetchFile = (\<lambda>index branch rel. Resolved 40 (Some threeLines)),
      closing = Resolved 1 (), disconnecting = Resolved 2 ()\<rparr>"

definition hungEnv :: handler_env where
  "hungEnv =
     promptEnv\<lparr>fetchFile := (\<lambda>index branch rel. if index = 0 then Pending
                                                 else Resolved 40 (Some threeLines))\<rparr>"

section \<open>Verified properties\<close>

subsection \<open>The registry invariant, operation by operation\<close>

lemma list_all_delete: "list_all P al \<Longrightarrow> list_all P (AList.delete k al)"
  by (induction al) auto

lemma list_all_update:
  "list_all P al \<Longrightarrow> P (k, v) \<Longrightarrow> list_all P (AList.update k v al)"
  by (induction al) auto

lemma registry_ok_delete:
  "registry_ok s \<Longrightarrow> registry_ok (s\<lparr>registry := AList.delete k (registry s)\<rparr>)"
  by (simp add: registry_ok_def distinct_delete list_all_delete)

lemma registry_ok_locks:
  "registry_ok (s\<lparr>graphCreationLocks := l\<rparr>) = registry_ok s"
  by (simp add: registry_ok_def)

lemma registry_ok_setCreationLock:
  "registry_ok s \<Longrightarrow> registry_ok (setCreationLock k b now s)"
  by (simp add: registry_ok_def setCreationLock_def Let_def distinct_update distinct_delete
      list_all_delete list_all_update)

lemma registry_ok_clearStaleLocks:
  "registry_ok s \<Longrightarrow> registry_ok (clearStaleLocks k now s)"
  by (auto simp: registry_ok_def clearStaleLocks_def Let_def distinct_delete
      list_all_delete split: option.splits)

lemma registry_ok_getCreationProgress:
  "registry_ok s \<Longrightarrow> registry_ok (snd (getCreationProgress k now s))"
  by (auto simp: registry_ok_def getCreationProgress_def Let_def distinct_delete
      list_all_delete split: option.splits)

lemma registry_ok_isCreationInProgress:
  "registry_ok s \<Longrightarrow> registry_ok (snd (isCreationInProgress k now s))"
  by (auto simp: registry_ok_def isCreationInProgress_def Let_def distinct_delete
      list_all_delete split: option.splits)

lemma registry_ok_runTask: "registry_ok s \<Longrightarrow> registry_ok (runTask t now s)"
  by (cases t) (simp add: Let_def registry_ok_locks registry_ok_setCreationLock)

lemma registry_ok_fold_runTask:
  "registry_ok s \<Longrightarrow> registry_ok (fold (\<lambda>(due, t) s'. runTask t now s') ts s)"
  by (induction ts arbitrary: s) (auto simp: registry_ok_runTask)

lemma registry_ok_timers: "registry_ok (s\<lparr>timers := l\<rparr>) = registry_ok s"
  by (simp add: registry_ok_def)

lemma registry_ok_runDueTimers: "registry_ok s \<Longrightarrow> registry_ok (runDueTimers now s)"
  unfolding runDueTimers_def by (rule registry_ok_fold_runTask) (simp add: registry_ok_timers)

lemma registry_ok_posted: "registry_ok (s\<lparr>posted := l\<rparr>) = registry_ok s"
  by (simp add: registry_ok_def)

lemma registry_ok_startBackgroundCreation:
  "registry_ok s \<Longrightarrow> startBackgroundCreation env ow rp now s = Some (T, out, s') \<Longrightarrow> registry_ok s'"
  by (auto simp: startBackgroundCreation_def Let_def registry_ok_timers registry_ok_locks
      registry_ok_posted registry_ok_setCreationLock split: async.splits)


subsection \<open>Progress views and absence\<close>

lemma list_all_map_of:
  "list_all P al \<Longrightarrow> map_of al k = Some v \<Longrightarrow> P (k, v)"
  by (auto simp: list_all_iff dest: map_of_SomeD)

lemma getCreationProgress_absent:
  assumes "registry_ok s" and "\<not> p_inProgress (fst (getCreationProgress k now s))"
  shows "map_of (registry (snd (getCreationProgress k now s))) k = None"
proof (cases "map_of (registry s) k")
  case None
  then show ?thesis by (simp add: getCreationProgress_def)
next
  case (Some e)
  with assms(1) have "inProgress e"
    using list_all_map_of[of "\<lambda>(k, e). inProgress e" "registry s" k e]
    by (simp add: registry_ok_def)
  with Some assms(2) show ?thesis
    by (simp add: getCreationProgress_def Let_def delete_conv split: if_splits)
qed

subsection \<open>The background build ends and defers its cleanup\<close>







lemma setCreationLock_timers [simp]: "timers (setCreationLock k b now s) = timers s"
  by (simp add: setCreationLock_def Let_def)

lemma setCreationLock_posted [simp]: "posted (setCreationLock k b now s) = posted s"
  by (simp add: setCreationLock_def Let_def)







subsection \<open>Staleness thresholds in whole minutes\<close>

lemma freshLock_eval:
  "freshLock k ts =
     \<lparr>registry = [(k, \<lparr>inProgress = True, timestamp = ts, phase = ''Initializing analysis''\<rparr>)],
      graphCreationLocks = [(k, LockFlag True), (timestampKey k, LockTime ts)],
      timers = [], posted = []\<rparr>"
  by (simp add: freshLock_def setCreationLock_def initial_state_def timestampKey_def)

lemma minutesSince_gt10: "(10 < minutesSince now ts) = (660000 \<le> now - ts)"
  by (simp add: minutesSince_def; linarith)

lemma minutesSince_gt20: "(20 < minutesSince now ts) = (1260000 \<le> now - ts)"
  by (simp add: minutesSince_def; linarith)

lemma minutesSince_ge5: "(5 \<le> minutesSince now ts) = (300000 \<le> now - ts)"
  by (simp add: minutesSince_def; linarith)

lemma minutesSince_lt10: "(minutesSince now ts < 10) = (now - ts < 600000)"
  by (simp add: minutesSince_def; linarith)

lemma delete_other: "k' \<noteq> k \<Longrightarrow> map_of (AList.delete k al) k' = map_of al k'"
  by (simp add: delete_conv)

lemma clearStaleLocks_registry:
  "registry (clearStaleLocks k now s) =
     (case map_of (registry s) k of
        Some e \<Rightarrow> if 10 < minutesSince now (timestamp e)
                  then AList.delete k (registry s) else registry s
      | None \<Rightarrow> registry s)"
  by (simp add: clearStaleLocks_def Let_def split: option.splits)

text \<open>
  What \<open>clearStaleLocks\<close> does: it compares the age in whole minutes, rounded down,
  with 10 by \<open>>\<close>. It leaves the registry unchanged for a record younger than 11 minutes
  (660000 ms), so in particular for every record younger than 10 minutes, and deletes the
  record, and only that record, from 11 minutes on. (The legacy lock map has its own
  timestamp and may be cleaned in either case.)
\<close>

lemma clearStaleLocks_whole_minutes:
  assumes "map_of (registry s) k = Some e"
  shows "(now - timestamp e < 660000 \<longrightarrow> registry (clearStaleLocks k now s) = registry s)
       \<and> (660000 \<le> now - timestamp e \<longrightarrow>
            map_of (registry (clearStaleLocks k now s)) k = None
            \<and> (\<forall>k'. k' \<noteq> k \<longrightarrow>
                  map_of (registry (clearStaleLocks k now s)) k' = map_of (registry s) k'))"
  using assms
  by (simp add: clearStaleLocks_registry minutesSince_gt10 delete_conv)

text \<open>A lock taken at 1000000 ms is kept at age 659999 ms and deleted at age 660000 ms.\<close>

lemma clearStaleLocks_whole_minutes_example:
  "registry (clearStaleLocks ''o/r'' 1659999 (freshLock ''o/r'' 1000000))
     = registry (freshLock ''o/r'' 1000000)
   \<and> map_of (registry (clearStaleLocks ''o/r'' 1660000 (freshLock ''o/r'' 1000000))) ''o/r''
     = None"
proof -
  have h: "map_of (registry (freshLock ''o/r'' 1000000)) ''o/r''
           = Some \<lparr>inProgress = True, timestamp = 1000000, phase = ''Initializing analysis''\<rparr>"
    by (simp add: freshLock_eval)
  from clearStaleLocks_whole_minutes[OF h, of 1659999]
    clearStaleLocks_whole_minutes[OF h, of 1660000]
  show ?thesis by simp
qed

text \<open>
  Claim C3: \<open>clearStaleLocks\<close> is to leave a record younger than 10 minutes alone and to
  delete a record whose age exceeds 10 minutes; the comment on the test in the code says the
  same (\<open>Clear locks older than 10 minutes\<close>). The code does the first and not the second:
  it rounds the age down to whole minutes before comparing it with 10 by \<open>>\<close>, where the
  handler's own five-minute rule compares the rounded age by \<open>\<ge>\<close>. A lock taken at
  1000000 ms and read at 1630000 ms is 630000 ms old, ten and a half minutes, which exceeds
  10 minutes; \<open>clearStaleLocks\<close> keeps the record.
\<close>

theorem clearStaleLocks_keeps_stale_record:
  "10 * 60 * 1000 < (1630000::int) - 1000000
   \<and> map_of (registry (clearStaleLocks ''o/r'' 1630000 (freshLock ''o/r'' 1000000))) ''o/r''
     = Some \<lparr>inProgress = True, timestamp = 1000000, phase = ''Initializing analysis''\<rparr>"
  by (simp add: freshLock_eval clearStaleLocks_def minutesSince_def timestampKey_def)

subsection \<open>Re-arming a lock keeps its start time\<close>

lemma setCreationLock_true_registry:
  "registry (setCreationLock k True now s) =
     AList.update k
       \<lparr>inProgress = True, timestamp = startStamp k now s, phase = ''Initializing analysis''\<rparr>
       (registry s)"
  by (simp add: setCreationLock_def Let_def startStamp_def)

lemma startStamp_nonzero: "now \<noteq> 0 \<Longrightarrow> startStamp k now s \<noteq> 0"
  by (simp add: startStamp_def split: option.splits)

lemma startStamp_again:
  "now \<noteq> 0 \<Longrightarrow> startStamp k later (setCreationLock k True now s) = startStamp k now s"
  using startStamp_nonzero[of now k s]
  by (simp add: startStamp_def[of k later] setCreationLock_true_registry update_conv)

lemma getCreationProgress_fst_cong:
  "registry s = registry s' \<Longrightarrow>
   fst (getCreationProgress k t s) = fst (getCreationProgress k t s')"
  by (simp add: getCreationProgress_def Let_def split: option.splits)

text \<open>
  Claim C5. \<open>setCreationLock(key, true)\<close> on an absent record stamps the current time; on
  a record with a (non-zero) timestamp it keeps that timestamp. Hence a second call after a
  first one made at a non-zero clock reading leaves the registry as the first call made
  it, and \<open>getCreationProgress\<close> reports the same view, elapsed minutes included, as it
  would without the second call.
\<close>

theorem setCreationLock_keeps_start:
  "(map_of (registry s) k = None \<longrightarrow>
      map_of (registry (setCreationLock k True now s)) k
        = Some \<lparr>inProgress = True, timestamp = now, phase = ''Initializing analysis''\<rparr>)
   \<and> (\<forall>e. map_of (registry s) k = Some e \<and> timestamp e \<noteq> 0 \<longrightarrow>
          map_of (registry (setCreationLock k True now s)) k
            = Some \<lparr>inProgress = True, timestamp = timestamp e,
                    phase = ''Initializing analysis''\<rparr>)
   \<and> (now \<noteq> 0 \<longrightarrow>
        registry (setCreationLock k True later (setCreationLock k True now s))
          = registry (setCreationLock k True now s)
        \<and> fst (getCreationProgress k t
                 (setCreationLock k True later (setCreationLock k True now s)))
          = fst (getCreationProgress k t (setCreationLock k True now s)))"
proof (intro conjI allI impI)
  assume "map_of (registry s) k = None"
  then show "map_of (registry (setCreationLock k True now s)) k
        = Some \<lparr>inProgress = True, timestamp = now, phase = ''Initializing analysis''\<rparr>"
    by (simp add: setCreationLock_true_registry update_conv startStamp_def)
next
  fix e assume "map_of (registry s) k = Some e \<and> timestamp e \<noteq> 0"
  then show "map_of (registry (setCreationLock k True now s)) k
            = Some \<lparr>inProgress = True, timestamp = timestamp e,
                    phase = ''Initializing analysis''\<rparr>"
    by (simp add: setCreationLock_true_registry update_conv startStamp_def)
next
  assume nz: "now \<noteq> 0"
  show same: "registry (setCreationLock k True later (setCreationLock k True now s))
          = registry (setCreationLock k True now s)"
    by (simp add: setCreationLock_true_registry[of k later] startStamp_again[OF nz])
       (simp add: setCreationLock_true_registry)
  show "fst (getCreationProgress k t
                 (setCreationLock k True later (setCreationLock k True now s)))
          = fst (getCreationProgress k t (setCreationLock k True now s))"
    by (rule getCreationProgress_fst_cong[OF same])
qed

text \<open>Claim C5 at a first call at 1000000 ms and a second call four minutes later.\<close>

theorem setCreationLock_keeps_start_witness:
  "map_of (registry (setCreationLock ''o/r'' True 1000000 initial_state)) ''o/r''
     = Some \<lparr>inProgress = True, timestamp = 1000000, phase = ''Initializing analysis''\<rparr>
   \<and> map_of (registry (setCreationLock ''o/r'' True 1240000 (freshLock ''o/r'' 1000000))) ''o/r''
     = Some \<lparr>inProgress = True, timestamp = 1000000, phase = ''Initializing analysis''\<rparr>
   \<and> elapsedMinutes (fst (getCreationProgress ''o/r'' 1250000
        (setCreationLock ''o/r'' True 1240000
           (setCreationLock ''o/r'' True 1000000 initial_state)))) = 4"
proof -
  have a: "map_of (registry initial_state) ''o/r'' = None"
    by (simp add: initial_state_def)
  have b: "map_of (registry (freshLock ''o/r'' 1000000)) ''o/r''
             = Some \<lparr>inProgress = True, timestamp = 1000000, phase = ''Initializing analysis''\<rparr>
           \<and> timestamp \<lparr>inProgress = True, timestamp = 1000000,
                         phase = ''Initializing analysis''\<rparr> \<noteq> 0"
    by (simp add: freshLock_eval)
  have c: "(1000000::int) \<noteq> 0" by simp
  have d: "elapsedMinutes (fst (getCreationProgress ''o/r'' 1250000 (freshLock ''o/r'' 1000000))) = 4"
    by (simp add: freshLock_eval getCreationProgress_def minutesSince_def)
  from setCreationLock_keeps_start[of initial_state "''o/r''" 1000000 1240000 1250000]
    setCreationLock_keeps_start[of "freshLock ''o/r'' 1000000" "''o/r''" 1240000] a b c d
  show ?thesis by (simp add: freshLock_def)
qed

subsection \<open>The branch for a missing graph\<close>

lemma clearStaleLocks_posted [simp]: "posted (clearStaleLocks k now s) = posted s"
  by (simp add: clearStaleLocks_def Let_def split: option.splits)

lemma clearStaleLocks_timers [simp]: "timers (clearStaleLocks k now s) = timers s"
  by (simp add: clearStaleLocks_def Let_def split: option.splits)

lemma getCreationProgress_in_progress:
  assumes "getCreationProgress k now s = (view, s')" and "p_inProgress view"
  shows "s' = s"
    and "\<exists>e. map_of (registry s) k = Some e \<and> inProgress e
             \<and> elapsedMinutes view = minutesSince now (timestamp e)
             \<and> minutesSince now (timestamp e) \<le> 20"
  using assms
  by (auto simp: getCreationProgress_def Let_def notInProgress_def
      split: option.splits if_splits)

lemma clearStaleLocks_kept:
  "map_of (registry (clearStaleLocks k now s)) k \<noteq> None \<Longrightarrow>
   registry (clearStaleLocks k now s) = registry s"
  by (auto simp: clearStaleLocks_registry delete_conv split: option.splits if_splits)

lemma graphMissingBranch_young:
  assumes gp: "getCreationProgress (o1 @ ''/'' @ r1) now (clearStaleLocks (o1 @ ''/'' @ r1) now s)
             = (view, s1)"
    and ip: "p_inProgress view" and young: "elapsedMinutes view < 5"
  shows "graphMissingBranch o1 r1 fn now s
           = (CreationInProgress (o1 @ ''/'' @ r1) view fn, clearStaleLocks (o1 @ ''/'' @ r1) now s)"
proof -
  from getCreationProgress_in_progress(1)[OF gp ip]
  have s1: "s1 = clearStaleLocks (o1 @ ''/'' @ r1) now s" .
  show ?thesis
    using gp ip young unfolding s1
    by (simp add: graphMissingBranch_def Let_def)
qed

lemma getCreationProgress_absent_key:
  "map_of (registry s) k = None \<Longrightarrow> getCreationProgress k now s = (notInProgress, s)"
  by (simp add: getCreationProgress_def)

lemma graphMissingBranch_old:
  assumes gp: "getCreationProgress (o1 @ ''/'' @ r1) now (clearStaleLocks (o1 @ ''/'' @ r1) now s)
             = (view, s1)"
    and ip: "p_inProgress view" and old: "5 \<le> elapsedMinutes view"
  shows "fst (graphMissingBranch o1 r1 fn now s) = StartingAnalysis (o1 @ ''/'' @ r1) fn"
    and "posted (snd (graphMissingBranch o1 r1 fn now s))
           = posted s @ [getGitHubRepoUrl o1 r1]"
    and "map_of (registry (snd (graphMissingBranch o1 r1 fn now s))) (o1 @ ''/'' @ r1)
           = Some \<lparr>inProgress = True, timestamp = now, phase = ''Initializing analysis''\<rparr>"
proof -
  let ?k = "o1 @ ''/'' @ r1"
  from getCreationProgress_in_progress(1)[OF gp ip]
  have s1: "s1 = clearStaleLocks ?k now s" .
  let ?s3 = "(setCreationLock ?k False now s1)\<lparr>registry :=
               AList.delete ?k (registry (setCreationLock ?k False now s1))\<rparr>"
  have absent: "map_of (registry ?s3) ?k = None"
    by (simp add: delete_conv)
  have fin: "getCreationProgress ?k now ?s3 = (notInProgress, ?s3)"
    by (rule getCreationProgress_absent_key[OF absent])
  have unfold: "graphMissingBranch o1 r1 fn now s =
      (StartingAnalysis ?k fn,
       (setCreationLock ?k True now ?s3)\<lparr>posted :=
          posted (setCreationLock ?k True now ?s3) @ [getGitHubRepoUrl o1 r1]\<rparr>)"
    using gp ip old fin unfolding s1
    by (simp add: graphMissingBranch_def Let_def notInProgress_def)
  show "fst (graphMissingBranch o1 r1 fn now s) = StartingAnalysis ?k fn"
    by (simp add: unfold)
  show "posted (snd (graphMissingBranch o1 r1 fn now s)) = posted s @ [getGitHubRepoUrl o1 r1]"
    by (simp add: unfold s1)
  show "map_of (registry (snd (graphMissingBranch o1 r1 fn now s))) ?k
           = Some \<lparr>inProgress = True, timestamp = now, phase = ''Initializing analysis''\<rparr>"
    using absent
    by (simp add: unfold setCreationLock_true_registry update_conv startStamp_def)
qed

lemma fetch_graph_missing:
  assumes "owner rd = Some o1" "repo rd = Some r1" "\<not> blank o1" "\<not> blank r1"
    and "checkGraphExists r1 (listing env) = Resolved t False"
    and "disconnecting env = Resolved d u"
  shows "fetchUsageCodeExamples env rd fn now s =
           (Resolved (t + d) (fst (graphMissingBranch o1 r1 fn (now + int t) s)),
            snd (graphMissingBranch o1 r1 fn (now + int t) s))"
  using assms by (simp add: fetchUsageCodeExamples_def Let_def split: prod.splits)

lemma fetch_graph_exists:
  assumes "owner rd = Some o1" "repo rd = Some r1" "\<not> blank o1" "\<not> blank r1"
    and "checkGraphExists r1 (listing env) = Resolved t True"
  shows "fetchUsageCodeExamples env rd fn now s =
           (delay t (afinally (fst (graphExistsBranch env (o1 @ ''/'' @ r1) fn (now + int t) s))
                       (disconnecting env)),
            snd (graphExistsBranch env (o1 @ ''/'' @ r1) fn (now + int t) s))"
  using assms by (simp add: fetchUsageCodeExamples_def Let_def split: prod.splits)

text \<open>
  Claim C1, amended. Take a request for a valid repository whose graph the existence check
  reports absent, and let \<open>view\<close> be the progress that the registry shows after the eviction of
  locks older than the soft threshold. If \<open>view\<close> is in progress and its elapsed whole minutes
  are below 5, the response is the progress message built from \<open>view\<close>, and the request
  leaves the registry and the log of build requests as they were. If \<open>view\<close> is in progress
  with 5 elapsed minutes or more, the handler clears the record, takes a new lock stamped
  with the current time, posts a build request and answers that the analysis has started.
\<close>

theorem missing_graph_progress:
  assumes "owner rd = Some o1" and "repo rd = Some r1" and "\<not> blank o1" and "\<not> blank r1"
    and "checkGraphExists r1 (listing env) = Resolved t False"
    and "disconnecting env = Resolved d u"
    and "getCreationProgress (o1 @ ''/'' @ r1) (now + int t)
           (clearStaleLocks (o1 @ ''/'' @ r1) (now + int t) s) = (view, s1)"
    and "p_inProgress view"
  shows "(elapsedMinutes view < 5 \<longrightarrow>
            fst (fetchUsageCodeExamples env rd fn now s)
              = Resolved (t + d) (CreationInProgress (o1 @ ''/'' @ r1) view fn)
            \<and> registry (snd (fetchUsageCodeExamples env rd fn now s)) = registry s
            \<and> posted (snd (fetchUsageCodeExamples env rd fn now s)) = posted s)
       \<and> (5 \<le> elapsedMinutes view \<longrightarrow>
            fst (fetchUsageCodeExamples env rd fn now s)
              = Resolved (t + d) (StartingAnalysis (o1 @ ''/'' @ r1) fn)
            \<and> posted (snd (fetchUsageCodeExamples env rd fn now s))
              = posted s @ [getGitHubRepoUrl o1 r1]
            \<and> map_of (registry (snd (fetchUsageCodeExamples env rd fn now s))) (o1 @ ''/'' @ r1)
              = Some \<lparr>inProgress = True, timestamp = now + int t,
                      phase = ''Initializing analysis''\<rparr>)"
proof -
  let ?k = "o1 @ ''/'' @ r1" and ?n = "now + int t"
  note f = fetch_graph_missing[OF assms(1-6), of fn now s]
  from getCreationProgress_in_progress(2)[OF assms(7,8)]
  have "map_of (registry (clearStaleLocks ?k ?n s)) ?k \<noteq> None" by auto
  then have kept: "registry (clearStaleLocks ?k ?n s) = registry s"
    by (rule clearStaleLocks_kept)
  show ?thesis
  proof (intro conjI impI)
    assume young: "elapsedMinutes view < 5"
    note g = graphMissingBranch_young[OF assms(7,8) young, of fn]
    show "fst (fetchUsageCodeExamples env rd fn now s)
              = Resolved (t + d) (CreationInProgress ?k view fn)"
      by (simp add: f g)
    show "registry (snd (fetchUsageCodeExamples env rd fn now s)) = registry s"
      using kept by (simp add: f g)
    show "posted (snd (fetchUsageCodeExamples env rd fn now s)) = posted s"
      by (simp add: f g)
  next
    assume old: "5 \<le> elapsedMinutes view"
    note g = graphMissingBranch_old[OF assms(7,8) old, of fn]
    show "fst (fetchUsageCodeExamples env rd fn now s)
              = Resolved (t + d) (StartingAnalysis ?k fn)"
      using g(1) by (simp add: f)
    show "posted (snd (fetchUsageCodeExamples env rd fn now s))
              = posted s @ [getGitHubRepoUrl o1 r1]"
      using g(2) by (simp add: f)
    show "map_of (registry (snd (fetchUsageCodeExamples env rd fn now s))) ?k
              = Some \<lparr>inProgress = True, timestamp = ?n, phase = ''Initializing analysis''\<rparr>"
      using g(3) by (simp add: f)
  qed
qed

lemma blank_o: "\<not> blank ''o''" and blank_r: "\<not> blank ''r''"
  by (simp_all add: blank_def whiteSpace_def)

lemma freshLock_progress_young:
  "getCreationProgress ''o/r'' 1200010 (clearStaleLocks ''o/r'' 1200010 (freshLock ''o/r'' 1000000))
     = (\<lparr>p_inProgress = True, elapsedMinutes = 3, estimatedRemaining = ''5-10 minutes'',
         p_phase = ''Analyzing repository''\<rparr>, freshLock ''o/r'' 1000000)"
  by (simp add: freshLock_eval clearStaleLocks_def getCreationProgress_def minutesSince_def
      timestampKey_def)

lemma freshLock_progress_old:
  "getCreationProgress ''o/r'' 1420010 (clearStaleLocks ''o/r'' 1420010 (freshLock ''o/r'' 1000000))
     = (\<lparr>p_inProgress = True, elapsedMinutes = 7, estimatedRemaining = ''5-10 minutes'',
         p_phase = ''Analyzing repository''\<rparr>, freshLock ''o/r'' 1000000)"
  by (simp add: freshLock_eval clearStaleLocks_def getCreationProgress_def minutesSince_def
      timestampKey_def)

text \<open>Claim C1, amended, at a lock three minutes old (progress message) and at a lock
  seven minutes old (new build).\<close>

theorem missing_graph_progress_witness:
  "fst (fetchUsageCodeExamples absentGraphEnv exampleRepo ''fn'' 1200000 (freshLock ''o/r'' 1000000))
     = Resolved 12 (CreationInProgress ''o/r''
         \<lparr>p_inProgress = True, elapsedMinutes = 3, estimatedRemaining = ''5-10 minutes'',
          p_phase = ''Analyzing repository''\<rparr> ''fn'')
   \<and> posted (snd (fetchUsageCodeExamples absentGraphEnv exampleRepo ''fn'' 1200000
        (freshLock ''o/r'' 1000000))) = []
   \<and> fst (fetchUsageCodeExamples absentGraphEnv exampleRepo ''fn'' 1420000
        (freshLock ''o/r'' 1000000)) = Resolved 12 (StartingAnalysis ''o/r'' ''fn'')"
proof -
  have a: "owner exampleRepo = Some ''o''" "repo exampleRepo = Some ''r''"
    by (simp_all add: exampleRepo_def)
  have b: "checkGraphExists ''r'' (listing absentGraphEnv) = Resolved 10 False"
    "disconnecting absentGraphEnv = Resolved 2 ()"
    by (simp_all add: absentGraphEnv_def)
  have y: "getCreationProgress (''o'' @ ''/'' @ ''r'') (1200000 + int 10)
             (clearStaleLocks (''o'' @ ''/'' @ ''r'') (1200000 + int 10) (freshLock ''o/r'' 1000000))
           = (\<lparr>p_inProgress = True, elapsedMinutes = 3, estimatedRemaining = ''5-10 minutes'',
               p_phase = ''Analyzing repository''\<rparr>, freshLock ''o/r'' 1000000)"
    using freshLock_progress_young by simp
  have z: "getCreationProgress (''o'' @ ''/'' @ ''r'') (1420000 + int 10)
             (clearStaleLocks (''o'' @ ''/'' @ ''r'') (1420000 + int 10) (freshLock ''o/r'' 1000000))
           = (\<lparr>p_inProgress = True, elapsedMinutes = 7, estimatedRemaining = ''5-10 minutes'',
               p_phase = ''Analyzing repository''\<rparr>, freshLock ''o/r'' 1000000)"
    using freshLock_progress_old by simp
  from missing_graph_progress[OF a blank_o blank_r b y, of "''fn''"]
    missing_graph_progress[OF a blank_o blank_r b z, of "''fn''"]
  show ?thesis by (simp add: freshLock_eval)
qed

text \<open>
  Claim C1 as stated fails: with the graph absent and a lock seven minutes old, which the
  eviction keeps and the registry shows in progress, the request clears the record, stamps
  a new one, posts a build request and answers that the analysis has started.
\<close>

theorem missing_graph_progress_counterexample:
  "checkGraphExists ''r'' (listing absentGraphEnv) = Resolved 10 False
   \<and> p_inProgress (fst (getCreationProgress ''o/r'' 1420010
        (clearStaleLocks ''o/r'' 1420010 (freshLock ''o/r'' 1000000))))
   \<and> fetchUsageCodeExamples absentGraphEnv exampleRepo ''fn'' 1420000 (freshLock ''o/r'' 1000000)
     = (Resolved 12 (StartingAnalysis ''o/r'' ''fn''),
        \<lparr>registry = [(''o/r'', \<lparr>inProgress = True, timestamp = 1420010,
                                 phase = ''Initializing analysis''\<rparr>)],
         graphCreationLocks = [(''o/r'', LockFlag True), (''o/r_timestamp'', LockTime 1000000)],
         timers = [], posted = [''https://github.com/o/r'']\<rparr>)"
  by (simp add: freshLock_progress_old fetchUsageCodeExamples_def absentGraphEnv_def
      exampleRepo_def blank_o blank_r graphMissingBranch_def Let_def freshLock_eval
      clearStaleLocks_def getCreationProgress_def minutesSince_def timestampKey_def
      setCreationLock_def notInProgress_def getGitHubRepoUrl_def)

subsection \<open>The race against the whole-operation deadline\<close>

lemma getFunctionInfo_cases:
  "getFunctionInfo q =
     (case q of Resolved t row \<Rightarrow> Resolved (t + 0) (case row of Some cs \<Rightarrow> cs | None \<Rightarrow> [])
              | Rejected t e \<Rightarrow> Rejected t e | Pending \<Rightarrow> Pending)"
  by (cases q) (simp_all add: getFunctionInfo_def)

lemma delay_not_timeout:
  "(\<And>u r. p = Resolved u r \<Longrightarrow> \<forall>f. r \<noteq> SearchTimeout f) \<Longrightarrow>
   delay t p = Resolved u r \<Longrightarrow> r \<noteq> SearchTimeout f"
  by (cases p) auto

lemma abind_examples_not_timeout:
  "abind p (\<lambda>x. Resolved 0 (CodeExamples a b x)) = Resolved u r \<Longrightarrow> r \<noteq> SearchTimeout f"
  by (cases p) auto

lemma lookup_not_timeout:
  "fst (lookup env k fn now s) = Resolved u r \<Longrightarrow> r \<noteq> SearchTimeout f"
proof (cases "getFunctionInfo (queryRow env)")
  case (Resolved t callers)
  show "fst (lookup env k fn now s) = Resolved u r \<Longrightarrow> r \<noteq> SearchTimeout f"
  proof (cases "callers = []")
    case True
    assume "fst (lookup env k fn now s) = Resolved u r"
    with Resolved True show ?thesis
      by (auto simp: lookup_def Let_def split: prod.splits if_splits)
  next
    case False
    assume a: "fst (lookup env k fn now s) = Resolved u r"
    show ?thesis
    proof (cases "repoBranch env")
      case (Resolved tb branch)
      with a \<open>getFunctionInfo (queryRow env) = Resolved t callers\<close> False
      obtain u' where "abind (promise_all
                              (map (\<lambda>(c, index). codeExample env fn branch index c)
                                 (zip callers [0 ..< length callers])))
                       (\<lambda>codeExamples.
                          Resolved 0 (CodeExamples fn (length callers) codeExamples)) = Resolved u' r"
        by (cases "abind (promise_all
                              (map (\<lambda>(c, index). codeExample env fn branch index c)
                                 (zip callers [0 ..< length callers])))
                       (\<lambda>codeExamples.
                          Resolved 0 (CodeExamples fn (length callers) codeExamples))")
           (auto simp: lookup_def)
      then show ?thesis by (rule abind_examples_not_timeout)
    next
      case (Rejected tb e)
      with a \<open>getFunctionInfo (queryRow env) = Resolved t callers\<close> False
      show ?thesis by (simp add: lookup_def)
    next
      case Pending
      with a \<open>getFunctionInfo (queryRow env) = Resolved t callers\<close> False
      show ?thesis by (simp add: lookup_def)
    qed
  qed
next
  case (Rejected t e)
  then show "fst (lookup env k fn now s) = Resolved u r \<Longrightarrow> r \<noteq> SearchTimeout f"
    by (simp add: lookup_def)
next
  case Pending
  then show "fst (lookup env k fn now s) = Resolved u r \<Longrightarrow> r \<noteq> SearchTimeout f"
    by (simp add: lookup_def)
qed

lemma afinally_Resolved:
  "afinally p q = Resolved u r \<Longrightarrow> \<exists>u'. p = Resolved u' r"
  by (cases p; cases q) auto

lemma delay_Resolved: "delay t p = Resolved u r \<Longrightarrow> \<exists>u'. p = Resolved u' r"
  by (cases p) auto

lemma pipeline_not_timeout:
  assumes "fst (pipeline env k fn now s) = Resolved u r"
  shows "r \<noteq> SearchTimeout f"
proof (cases "connection env")
  case (Resolved t x)
  with assms have "delay t (afinally (fst (lookup env k fn (now + int t) s)) (closing env))
                     = Resolved u r"
    by (simp add: pipeline_def Let_def split: prod.splits)
  then obtain u' where "fst (lookup env k fn (now + int t) s) = Resolved u' r"
    using delay_Resolved afinally_Resolved by metis
  then show ?thesis by (rule lookup_not_timeout)
next
  case (Rejected t e)
  with assms show ?thesis by (simp add: pipeline_def)
next
  case Pending
  with assms show ?thesis by (simp add: pipeline_def)
qed

lemma graphExistsBranch_race:
  "fst (graphExistsBranch env k fn now s) =
     (case fst (pipeline env k fn now s) of
        Resolved v r \<Rightarrow>
          if v < 8000 then Resolved v r else Resolved 8000 (SearchTimeout fn)
      | Rejected v e \<Rightarrow> Resolved (min v 8000) (SearchTimeout fn)
      | Pending \<Rightarrow> Resolved 8000 (SearchTimeout fn))"
  by (cases "fst (pipeline env k fn now s)")
     (auto simp: graphExistsBranch_def Let_def split: prod.splits)

text \<open>
  Claim C2, amended. For a request that names a valid repository whose graph exists, the
  pipeline (connect, query, enrich every caller, close) is raced against a timer of 8000 ms. The race yields the pipeline's own
  response when the pipeline delivers one before the timer is due, and the timeout advisory
  in every other case: when the pipeline is still running at 8000 ms, whatever it has
  computed by then, and also when the pipeline fails before that. The pipeline itself never
  delivers the advisory. The callback then awaits \<open>graphService.disconnect()\<close> in its outer
  \<open>finally\<close>. When the disconnect fulfils, the callback returns what the race yielded, so
  that the advisory is returned exactly when the pipeline delivers no response before the
  deadline; when the disconnect is rejected, the callback is rejected with its error, and
  when it never settles, the callback never returns.
\<close>

theorem deadline_race:
  assumes "owner rd = Some o1" and "repo rd = Some r1" and "\<not> blank o1" and "\<not> blank r1"
    and "checkGraphExists r1 (listing env) = Resolved t True"
  shows "fst (fetchUsageCodeExamples env rd fn now s) =
           delay t
             (afinally
                (case fst (pipeline env (o1 @ ''/'' @ r1) fn (now + int t) s) of
                   Resolved v r \<Rightarrow>
                     if v < 8000 then Resolved v r else Resolved 8000 (SearchTimeout fn)
                 | Rejected v e \<Rightarrow> Resolved (min v 8000) (SearchTimeout fn)
                 | Pending \<Rightarrow> Resolved 8000 (SearchTimeout fn))
                (disconnecting env))
         \<and> (\<forall>v r. fst (pipeline env (o1 @ ''/'' @ r1) fn (now + int t) s) = Resolved v r
                \<longrightarrow> r \<noteq> SearchTimeout fn)
         \<and> (\<forall>d u. disconnecting env = Resolved d u \<longrightarrow>
               fst (fetchUsageCodeExamples env rd fn now s) =
                 (case fst (pipeline env (o1 @ ''/'' @ r1) fn (now + int t) s) of
                    Resolved v r \<Rightarrow>
                      if v < 8000 then Resolved (t + (v + d)) r
                      else Resolved (t + (8000 + d)) (SearchTimeout fn)
                  | Rejected v e \<Rightarrow> Resolved (t + (min v 8000 + d)) (SearchTimeout fn)
                  | Pending \<Rightarrow> Resolved (t + (8000 + d)) (SearchTimeout fn))
               \<and> ((\<exists>T. fst (fetchUsageCodeExamples env rd fn now s)
                          = Resolved T (SearchTimeout fn))
                    \<longleftrightarrow> \<not> (\<exists>v r. fst (pipeline env (o1 @ ''/'' @ r1) fn (now + int t) s)
                                       = Resolved v r \<and> v < 8000)))
         \<and> (\<forall>d e. disconnecting env = Rejected d e \<longrightarrow>
               (\<exists>T. fst (fetchUsageCodeExamples env rd fn now s) = Rejected T e))
         \<and> (disconnecting env = Pending \<longrightarrow>
               fst (fetchUsageCodeExamples env rd fn now s) = Pending)"
proof -
  let ?p = "fst (pipeline env (o1 @ ''/'' @ r1) fn (now + int t) s)"
  let ?race = "case ?p of
                   Resolved v r \<Rightarrow>
                     if v < 8000 then Resolved v r else Resolved 8000 (SearchTimeout fn)
                 | Rejected v e \<Rightarrow> Resolved (min v 8000) (SearchTimeout fn)
                 | Pending \<Rightarrow> Resolved 8000 (SearchTimeout fn)"
  have gen: "fst (fetchUsageCodeExamples env rd fn now s)
               = delay t (afinally ?race (disconnecting env))"
    by (simp add: fetch_graph_exists[OF assms] graphExistsBranch_race)
  have own: "r \<noteq> SearchTimeout fn" if "?p = Resolved v r" for v r
    using that by (rule pipeline_not_timeout)
  have settled: "\<exists>T r. ?race = Resolved T r"
    by (cases ?p) auto
  have res: "fst (fetchUsageCodeExamples env rd fn now s) =
                 (case ?p of
                    Resolved v r \<Rightarrow>
                      if v < 8000 then Resolved (t + (v + d)) r
                      else Resolved (t + (8000 + d)) (SearchTimeout fn)
                  | Rejected v e \<Rightarrow> Resolved (t + (min v 8000 + d)) (SearchTimeout fn)
                  | Pending \<Rightarrow> Resolved (t + (8000 + d)) (SearchTimeout fn))"
    if "disconnecting env = Resolved d u" for d u
    unfolding gen using that by (cases ?p) auto
  have iff: "(\<exists>T. fst (fetchUsageCodeExamples env rd fn now s) = Resolved T (SearchTimeout fn))
               \<longleftrightarrow> \<not> (\<exists>v r. ?p = Resolved v r \<and> v < 8000)"
    if "disconnecting env = Resolved d u" for d u
    unfolding res[OF that] using own by (cases ?p) auto
  have rej: "\<exists>T. fst (fetchUsageCodeExamples env rd fn now s) = Rejected T e"
    if "disconnecting env = Rejected d e" for d e
    unfolding gen using that settled by auto
  have pen: "fst (fetchUsageCodeExamples env rd fn now s) = Pending"
    if "disconnecting env = Pending"
    unfolding gen using that settled by auto
  from gen own res iff rej pen show ?thesis by blast
qed

lemma quickEnv_pipeline:
  "pipeline quickEnv ''o/r'' ''fn'' 1000010 initial_state
     = (Resolved 26 (NoCallingFunctions ''fn''), initial_state)"
  by (simp add: pipeline_def lookup_def getFunctionInfo_def quickEnv_def Let_def
      getCreationProgress_def initial_state_def notInProgress_def)

lemma slowEnv_pipeline:
  "pipeline slowEnv ''o/r'' ''fn'' 1000010 initial_state
     = (Resolved 9025 (NoCallingFunctions ''fn''), initial_state)"
  by (simp add: pipeline_def lookup_def getFunctionInfo_def quickEnv_def slowEnv_def Let_def
      getCreationProgress_def initial_state_def notInProgress_def)

text \<open>Claim C2, amended, on a pipeline that answers after 26 ms, on one that has its answer
  ready but closes the connection too late, and on the first of them when the disconnect
  is rejected after 7 ms or never settles.\<close>

theorem deadline_race_witness:
  "fst (fetchUsageCodeExamples quickEnv exampleRepo ''fn'' 1000000 initial_state)
     = Resolved 38 (NoCallingFunctions ''fn'')
   \<and> fst (fetchUsageCodeExamples slowEnv exampleRepo ''fn'' 1000000 initial_state)
     = Resolved 8012 (SearchTimeout ''fn'')
   \<and> (\<exists>T. fst (fetchUsageCodeExamples
                 (quickEnv\<lparr>disconnecting := Rejected 7 ''disconnect failed''\<rparr>)
                 exampleRepo ''fn'' 1000000 initial_state)
            = Rejected T ''disconnect failed'')
   \<and> fst (fetchUsageCodeExamples (quickEnv\<lparr>disconnecting := Pending\<rparr>)
            exampleRepo ''fn'' 1000000 initial_state)
     = Pending"
proof -
  have a: "owner exampleRepo = Some ''o''" "repo exampleRepo = Some ''r''"
    by (simp_all add: exampleRepo_def)
  have q: "checkGraphExists ''r'' (listing quickEnv) = Resolved 10 True"
    by (simp add: quickEnv_def)
  have qd: "disconnecting quickEnv = Resolved 2 ()"
    by (simp add: quickEnv_def)
  have sl: "checkGraphExists ''r'' (listing slowEnv) = Resolved 10 True"
    by (simp add: quickEnv_def slowEnv_def)
  have sd: "disconnecting slowEnv = Resolved 2 ()"
    by (simp add: quickEnv_def slowEnv_def)
  have rj: "checkGraphExists ''r''
              (listing (quickEnv\<lparr>disconnecting := Rejected 7 ''disconnect failed''\<rparr>))
            = Resolved 10 True"
    by (simp add: quickEnv_def)
  have rd: "disconnecting (quickEnv\<lparr>disconnecting := Rejected 7 ''disconnect failed''\<rparr>)
            = Rejected 7 ''disconnect failed''"
    by simp
  have pn: "checkGraphExists ''r'' (listing (quickEnv\<lparr>disconnecting := Pending\<rparr>))
            = Resolved 10 True"
    by (simp add: quickEnv_def)
  have pd: "disconnecting (quickEnv\<lparr>disconnecting := Pending\<rparr>) = Pending"
    by simp
  note quick = deadline_race[OF a blank_o blank_r q, of "''fn''" 1000000 initial_state]
  note slow = deadline_race[OF a blank_o blank_r sl, of "''fn''" 1000000 initial_state]
  note rejected = deadline_race[OF a blank_o blank_r rj, of "''fn''" 1000000 initial_state]
  note hanging = deadline_race[OF a blank_o blank_r pn, of "''fn''" 1000000 initial_state]
  from quick qd
  have 1: "fst (fetchUsageCodeExamples quickEnv exampleRepo ''fn'' 1000000 initial_state)
             = Resolved 38 (NoCallingFunctions ''fn'')"
    by (simp add: quickEnv_pipeline)
  from slow sd
  have 2: "fst (fetchUsageCodeExamples slowEnv exampleRepo ''fn'' 1000000 initial_state)
             = Resolved 8012 (SearchTimeout ''fn'')"
    by (simp add: slowEnv_pipeline)
  from rejected rd
  have 3: "\<exists>T. fst (fetchUsageCodeExamples
                 (quickEnv\<lparr>disconnecting := Rejected 7 ''disconnect failed''\<rparr>)
                 exampleRepo ''fn'' 1000000 initial_state)
            = Rejected T ''disconnect failed''"
    by blast
  from hanging pd
  have 4: "fst (fetchUsageCodeExamples (quickEnv\<lparr>disconnecting := Pending\<rparr>)
            exampleRepo ''fn'' 1000000 initial_state) = Pending"
    by blast
  from 1 2 3 4 show ?thesis by blast
qed

text \<open>
  Claim C2 as stated fails: the pipeline below is rejected after 3 ms, when the store
  refuses the connection, and the response is the timeout advisory although the deadline
  of 8000 ms was never reached.
\<close>

theorem deadline_race_counterexample:
  "fst (pipeline refusedEnv ''o/r'' ''fn'' 1000010 initial_state)
     = Rejected 3 ''connection refused''
   \<and> fst (fetchUsageCodeExamples refusedEnv exampleRepo ''fn'' 1000000 initial_state)
     = Resolved 15 (SearchTimeout ''fn'')"
  by (simp add: fetchUsageCodeExamples_def graphExistsBranch_def pipeline_def refusedEnv_def
      exampleRepo_def blank_o blank_r Let_def)

subsection \<open>Hard expiry on reading the progress\<close>

lemma clearStaleLocks_absent:
  "map_of (registry s) k = None \<Longrightarrow> registry (clearStaleLocks k now s) = registry s"
  by (simp add: clearStaleLocks_registry)

lemma graphMissingBranch_absent:
  assumes "map_of (registry s) (o1 @ ''/'' @ r1) = None"
  shows "fst (graphMissingBranch o1 r1 fn now s) = StartingAnalysis (o1 @ ''/'' @ r1) fn"
    and "posted (snd (graphMissingBranch o1 r1 fn now s)) = posted s @ [getGitHubRepoUrl o1 r1]"
    and "map_of (registry (snd (graphMissingBranch o1 r1 fn now s))) (o1 @ ''/'' @ r1)
           = Some \<lparr>inProgress = True, timestamp = now, phase = ''Initializing analysis''\<rparr>"
proof -
  let ?k = "o1 @ ''/'' @ r1"
  let ?s1 = "clearStaleLocks ?k now s"
  have absent: "map_of (registry ?s1) ?k = None"
    using assms by (simp add: clearStaleLocks_absent)
  have gp: "getCreationProgress ?k now ?s1 = (notInProgress, ?s1)"
    by (rule getCreationProgress_absent_key[OF absent])
  have unfold: "graphMissingBranch o1 r1 fn now s =
      (StartingAnalysis ?k fn,
       (setCreationLock ?k True now ?s1)\<lparr>posted :=
          posted (setCreationLock ?k True now ?s1) @ [getGitHubRepoUrl o1 r1]\<rparr>)"
    using gp by (simp add: graphMissingBranch_def Let_def notInProgress_def)
  show "fst (graphMissingBranch o1 r1 fn now s) = StartingAnalysis ?k fn"
    by (simp add: unfold)
  show "posted (snd (graphMissingBranch o1 r1 fn now s)) = posted s @ [getGitHubRepoUrl o1 r1]"
    by (simp add: unfold)
  show "map_of (registry (snd (graphMissingBranch o1 r1 fn now s))) ?k
           = Some \<lparr>inProgress = True, timestamp = now, phase = ''Initializing analysis''\<rparr>"
    using absent
    by (simp add: unfold setCreationLock_true_registry update_conv startStamp_def)
qed

text \<open>
  What \<open>getCreationProgress\<close> does: it compares the age in whole minutes, rounded down,
  with 20 by \<open>>\<close>. For an in-progress record of 21 minutes (1260000 ms) or more it deletes the record
  and returns the view that is not in progress, with phase Complete; a request for the
  same key that then finds the graph absent, at whatever time, starts a new build. A record
  younger than 21 minutes is kept and reported as in progress.
\<close>

lemma getCreationProgress_hard_expiry:
  assumes "map_of (registry s) (o1 @ ''/'' @ r1) = Some e" and "inProgress e"
  shows "(1260000 \<le> now - timestamp e \<longrightarrow>
            getCreationProgress (o1 @ ''/'' @ r1) now s
              = (notInProgress,
                 s\<lparr>registry := AList.delete (o1 @ ''/'' @ r1) (registry s)\<rparr>)
            \<and> map_of (registry (snd (getCreationProgress (o1 @ ''/'' @ r1) now s)))
                 (o1 @ ''/'' @ r1) = None
            \<and> fst (graphMissingBranch o1 r1 fn later
                      (snd (getCreationProgress (o1 @ ''/'' @ r1) now s)))
                = StartingAnalysis (o1 @ ''/'' @ r1) fn
            \<and> posted (snd (graphMissingBranch o1 r1 fn later
                         (snd (getCreationProgress (o1 @ ''/'' @ r1) now s))))
                = posted s @ [getGitHubRepoUrl o1 r1])
       \<and> (now - timestamp e < 1260000 \<longrightarrow>
            p_inProgress (fst (getCreationProgress (o1 @ ''/'' @ r1) now s))
            \<and> snd (getCreationProgress (o1 @ ''/'' @ r1) now s) = s)"
proof (intro conjI impI)
  let ?k = "o1 @ ''/'' @ r1"
  assume old: "1260000 \<le> now - timestamp e"
  with assms show gp: "getCreationProgress ?k now s
              = (notInProgress, s\<lparr>registry := AList.delete ?k (registry s)\<rparr>)"
    by (simp add: getCreationProgress_def Let_def minutesSince_gt20)
  show absent: "map_of (registry (snd (getCreationProgress ?k now s))) ?k = None"
    using gp by (simp add: delete_conv)
  show "fst (graphMissingBranch o1 r1 fn later (snd (getCreationProgress ?k now s)))
          = StartingAnalysis ?k fn"
    by (rule graphMissingBranch_absent(1)[OF absent])
  show "posted (snd (graphMissingBranch o1 r1 fn later (snd (getCreationProgress ?k now s))))
          = posted s @ [getGitHubRepoUrl o1 r1]"
    using graphMissingBranch_absent(2)[OF absent, of fn later] gp by simp
next
  let ?k = "o1 @ ''/'' @ r1"
  assume young: "now - timestamp e < 1260000"
  with assms show "p_inProgress (fst (getCreationProgress ?k now s))"
    by (simp add: getCreationProgress_def Let_def minutesSince_gt20)
  from young assms show "snd (getCreationProgress ?k now s) = s"
    by (simp add: getCreationProgress_def Let_def minutesSince_gt20)
qed

text \<open>A lock taken at 1000000 ms is evicted at age 1260000 ms, after which a request starts
  a new build; it is kept at age 1259999 ms.\<close>

lemma getCreationProgress_hard_expiry_example:
  "fst (getCreationProgress (''o'' @ ''/'' @ ''r'') 2260000 (freshLock ''o/r'' 1000000))
     = notInProgress
   \<and> map_of (registry (snd (getCreationProgress (''o'' @ ''/'' @ ''r'') 2260000
        (freshLock ''o/r'' 1000000)))) (''o'' @ ''/'' @ ''r'') = None
   \<and> fst (graphMissingBranch ''o'' ''r'' ''fn'' 2260001
        (snd (getCreationProgress (''o'' @ ''/'' @ ''r'') 2260000 (freshLock ''o/r'' 1000000))))
     = StartingAnalysis (''o'' @ ''/'' @ ''r'') ''fn''
   \<and> p_inProgress (fst (getCreationProgress (''o'' @ ''/'' @ ''r'') 2259999
        (freshLock ''o/r'' 1000000)))"
proof -
  let ?e = "\<lparr>inProgress = True, timestamp = 1000000, phase = ''Initializing analysis''\<rparr>"
  have h: "map_of (registry (freshLock ''o/r'' 1000000)) (''o'' @ ''/'' @ ''r'') = Some ?e"
    "inProgress ?e"
    by (simp_all add: freshLock_eval)
  have old: "1260000 \<le> 2260000 - timestamp ?e" and young: "2259999 - timestamp ?e < 1260000"
    by simp_all
  from getCreationProgress_hard_expiry[OF h, of 2260000 "''fn''" 2260001] old
  have 1: "getCreationProgress (''o'' @ ''/'' @ ''r'') 2260000 (freshLock ''o/r'' 1000000)
             = (notInProgress, (freshLock ''o/r'' 1000000)\<lparr>registry :=
                  AList.delete (''o'' @ ''/'' @ ''r'') (registry (freshLock ''o/r'' 1000000))\<rparr>)"
    and 2: "map_of (registry (snd (getCreationProgress (''o'' @ ''/'' @ ''r'') 2260000
        (freshLock ''o/r'' 1000000)))) (''o'' @ ''/'' @ ''r'') = None"
    and 3: "fst (graphMissingBranch ''o'' ''r'' ''fn'' 2260001
        (snd (getCreationProgress (''o'' @ ''/'' @ ''r'') 2260000 (freshLock ''o/r'' 1000000))))
     = StartingAnalysis (''o'' @ ''/'' @ ''r'') ''fn''"
    by blast+
  from getCreationProgress_hard_expiry[OF h, of 2259999 "''fn''" 0] young
  have 4: "p_inProgress (fst (getCreationProgress (''o'' @ ''/'' @ ''r'') 2259999
        (freshLock ''o/r'' 1000000)))"
    by blast
  from 1 have 5: "fst (getCreationProgress (''o'' @ ''/'' @ ''r'') 2260000
      (freshLock ''o/r'' 1000000)) = notInProgress"
    by (simp only: fst_conv)
  from 5 2 3 4 show ?thesis by blast
qed

text \<open>
  Claim C4: for a record whose age exceeds the threshold of 20 minutes,
  \<open>getCreationProgress\<close> is to delete the record and return the view that is not in
  progress, with phase Complete; the comment on the test in the code says the same (\<open>If
  more than 20 minutes have passed, consider it stale and cleanup\<close>). The code rounds the
  age down to whole minutes before comparing it with 20 by \<open>>\<close>. A lock taken at 1000000 ms
  and read at 2230000 ms is 1230000 ms old, twenty and a half minutes, which exceeds 20
  minutes; \<open>getCreationProgress\<close> keeps the record and reports it in progress, in phase
  \<open>Completing analysis\<close>, with 20 elapsed minutes.
\<close>

theorem getCreationProgress_keeps_stale_record:
  "20 * 60 * 1000 < (2230000::int) - 1000000
   \<and> getCreationProgress ''o/r'' 2230000 (freshLock ''o/r'' 1000000)
     = (\<lparr>p_inProgress = True, elapsedMinutes = 20,
         estimatedRemaining = ''Should complete soon'', p_phase = ''Completing analysis''\<rparr>,
        freshLock ''o/r'' 1000000)"
  by (simp add: freshLock_eval getCreationProgress_def minutesSince_def)

subsection \<open>The invariant across a whole request\<close>

lemma registry_ok_graphMissingBranch:
  assumes "registry_ok s"
  shows "registry_ok (snd (graphMissingBranch o1 r1 fn now s))"
proof -
  let ?k = "o1 @ ''/'' @ r1"
  let ?s1 = "clearStaleLocks ?k now s"
  let ?s2 = "snd (getCreationProgress ?k now ?s1)"
  let ?s3 = "(setCreationLock ?k False now ?s2)\<lparr>registry :=
               AList.delete ?k (registry (setCreationLock ?k False now ?s2))\<rparr>"
  have 1: "registry_ok ?s1" using assms by (rule registry_ok_clearStaleLocks)
  then have 2: "registry_ok ?s2" by (rule registry_ok_getCreationProgress)
  then have 3: "registry_ok ?s3"
    by (intro registry_ok_delete registry_ok_setCreationLock)
  have 4: "registry_ok (snd (getCreationProgress ?k now s'))" if "registry_ok s'" for s'
    using that by (rule registry_ok_getCreationProgress)
  have 5: "registry_ok ((setCreationLock ?k True now s')\<lparr>posted := l\<rparr>)"
    if "registry_ok s'" for s' l
    using that by (simp add: registry_ok_posted registry_ok_setCreationLock)
  show ?thesis
    using 2 3 4[OF 2] 4[OF 3] 5[OF 4[OF 2]] 5[OF 4[OF 3]]
    by (auto simp: graphMissingBranch_def Let_def split: prod.splits)
qed

lemma registry_ok_lookup:
  "registry_ok s \<Longrightarrow> registry_ok (snd (lookup env k fn now s))"
  by (simp add: lookup_def Let_def case_prod_beta registry_ok_getCreationProgress
      split: async.splits)

lemma registry_ok_pipeline:
  "registry_ok s \<Longrightarrow> registry_ok (snd (pipeline env k fn now s))"
  by (simp add: pipeline_def Let_def case_prod_beta registry_ok_lookup split: async.splits)

lemma registry_ok_graphExistsBranch:
  "registry_ok s \<Longrightarrow> registry_ok (snd (graphExistsBranch env k fn now s))"
  by (simp add: graphExistsBranch_def Let_def case_prod_beta registry_ok_pipeline)

lemma registry_ok_fetchUsageCodeExamples:
  "registry_ok s \<Longrightarrow> registry_ok (snd (fetchUsageCodeExamples env rd fn now s))"
  by (simp add: fetchUsageCodeExamples_def Let_def case_prod_beta
      registry_ok_graphExistsBranch registry_ok_graphMissingBranch
      split: option.splits async.splits)

lemma registry_ok_initial: "registry_ok initial_state"
  by (simp add: registry_ok_def initial_state_def)

text \<open>
  Claim C9. The empty registry satisfies the invariant (no key twice, every record in
  progress), and every operation preserves it: \<open>setCreationLock\<close> with either flag,
  \<open>clearStaleLocks\<close>, \<open>getCreationProgress\<close>, \<open>isCreationInProgress\<close>, the build routine, its
  cleanup callback and the timer run, and a whole request of the tool. Under the invariant a
  view that is not in progress means that the record is absent afterwards.
\<close>

theorem registry_invariant:
  "registry_ok initial_state
   \<and> (registry_ok s \<longrightarrow>
        registry_ok (setCreationLock k b now s)
        \<and> registry_ok (clearStaleLocks k now s)
        \<and> registry_ok (snd (getCreationProgress k now s))
        \<and> registry_ok (snd (isCreationInProgress k now s))
        \<and> (\<forall>T outcome s'. startBackgroundCreation benv ownerName repoName now s
                             = Some (T, outcome, s') \<longrightarrow> registry_ok s')
        \<and> registry_ok (runTask task now s)
        \<and> registry_ok (runDueTimers now s)
        \<and> registry_ok (snd (fetchUsageCodeExamples henv rd fn now s))
        \<and> (\<not> p_inProgress (fst (getCreationProgress k now s)) \<longrightarrow>
              map_of (registry (snd (getCreationProgress k now s))) k = None))"
proof (intro conjI impI allI)
  show "registry_ok initial_state" by (rule registry_ok_initial)
next
  assume ok: "registry_ok s"
  show "registry_ok (setCreationLock k b now s)"
    using ok by (rule registry_ok_setCreationLock)
  show "registry_ok (clearStaleLocks k now s)"
    using ok by (rule registry_ok_clearStaleLocks)
  show "registry_ok (snd (getCreationProgress k now s))"
    using ok by (rule registry_ok_getCreationProgress)
  show "registry_ok (snd (isCreationInProgress k now s))"
    using ok by (rule registry_ok_isCreationInProgress)
  show "registry_ok s'"
    if "startBackgroundCreation benv ownerName repoName now s = Some (T, outcome, s')"
    for T outcome s'
    using ok that by (rule registry_ok_startBackgroundCreation)
  show "registry_ok (runTask task now s)"
    using ok by (rule registry_ok_runTask)
  show "registry_ok (runDueTimers now s)"
    using ok by (rule registry_ok_runDueTimers)
  show "registry_ok (snd (fetchUsageCodeExamples henv rd fn now s))"
    using ok by (rule registry_ok_fetchUsageCodeExamples)
  show "map_of (registry (snd (getCreationProgress k now s))) k = None"
    if "\<not> p_inProgress (fst (getCreationProgress k now s))"
    using ok that by (rule getCreationProgress_absent)
qed

text \<open>Claim C9 at the state after one lock: the invariant holds there and after releasing
  the lock, after a stale-lock pass, after a progress read past the hard expiry, and after a
  request that finds the graph absent.\<close>

theorem registry_invariant_witness:
  "registry_ok (freshLock ''o/r'' 1000000)
   \<and> registry_ok (setCreationLock ''o/r'' False 1000001 (freshLock ''o/r'' 1000000))
   \<and> registry_ok (clearStaleLocks ''o/r'' 1000001 (freshLock ''o/r'' 1000000))
   \<and> registry_ok (snd (getCreationProgress ''o/r'' 1000001 (freshLock ''o/r'' 1000000)))
   \<and> registry_ok (snd (fetchUsageCodeExamples absentGraphEnv exampleRepo ''fn'' 1000001
                         (freshLock ''o/r'' 1000000)))
   \<and> \<not> p_inProgress (fst (getCreationProgress ''o/r'' 2260000 (freshLock ''o/r'' 1000000)))
   \<and> map_of (registry (snd (getCreationProgress ''o/r'' 2260000 (freshLock ''o/r'' 1000000))))
        ''o/r'' = None"
proof -
  have ok: "registry_ok (freshLock ''o/r'' 1000000)"
    by (simp add: freshLock_eval registry_ok_def)
  have stale: "\<not> p_inProgress (fst (getCreationProgress ''o/r'' 2260000
                                      (freshLock ''o/r'' 1000000)))"
    by (simp add: freshLock_eval getCreationProgress_def minutesSince_def notInProgress_def)
  from registry_invariant[of "freshLock ''o/r'' 1000000" "''o/r''" False 1000001 pollingEnv
      "''o''" "''r''" "CleanupLocks ''o/r''" absentGraphEnv exampleRepo "''fn''"]
    registry_invariant[of "freshLock ''o/r'' 1000000" "''o/r''" False 2260000]
    ok stale
  show ?thesis by blast
qed

subsection \<open>The snippet window\<close>

lemma splitOn_nonempty: "splitOn c s \<noteq> []"
  by (induction s) (auto split: list.splits)

lemma slice_indexed:
  assumes "k \<le> j" and "j \<le> length L"
  shows "map g (zip (take (j - k) (drop k L)) [0 ..< length (take (j - k) (drop k L))])
           = map (\<lambda>i. g (L ! i, i - k)) [k ..< j]"
proof (rule nth_equalityI)
  show "length (map g (zip (take (j - k) (drop k L)) [0 ..< length (take (j - k) (drop k L))]))
          = length (map (\<lambda>i. g (L ! i, i - k)) [k ..< j])"
    using assms by simp
next
  fix i
  assume "i < length (map g (zip (take (j - k) (drop k L))
                               [0 ..< length (take (j - k) (drop k L))]))"
  then have i: "i < j - k" using assms by simp
  then show "map g (zip (take (j - k) (drop k L)) [0 ..< length (take (j - k) (drop k L))]) ! i
               = map (\<lambda>i. g (L ! i, i - k)) [k ..< j] ! i"
    using assms by (simp add: add.commute)
qed

lemma jsSlice_window:
  assumes "0 \<le> lo" and "0 \<le> hi" and "hi \<le> int (length L)"
  shows "map g (zip (jsSlice lo hi L) [0 ..< length (jsSlice lo hi L)])
           = map (\<lambda>i. g (L ! i, i - nat lo)) [nat lo ..< nat hi]"
proof (cases "lo \<le> hi")
  case True
  with assms have eq: "jsSlice lo hi L = take (nat hi - nat lo) (drop (nat lo) L)"
    by (simp add: jsSlice_def Let_def min_def nat_diff_distrib)
  show ?thesis
    unfolding eq using True assms by (intro slice_indexed) auto
next
  case False
  with assms have "jsSlice lo hi L = []"
    by (auto simp: jsSlice_def Let_def min_def)
  with False assms show ?thesis by simp
qed

text \<open>
  Claim C6. For every file text and every target line from \<open>-5\<close> upwards, so for every
  1-based line whether inside the file or beyond its end, the snippet is the lines of the
  clamped 0-based window from \<open>max 0 (line - 1 - 5)\<close> to
  \<open>min (length lines - 1) (line - 1 + 5)\<close>, joined by line feeds, the line at index \<open>i\<close>
  rendered as its marker (\<open>>>>\<close> exactly when \<open>i + 1\<close> is the target, else three spaces), a
  space, the number \<open>i + 1\<close> padded on the left to width 3, a colon, a space, and the line.
  The window never reaches past the last line. For no target line does the \<open>try\<close> block
  raise once a non-empty file has arrived in time: it yields the snippet.
\<close>

theorem renderSnippet_window:
  "(- 5 \<le> target \<longrightarrow>
      renderSnippet content target =
        joinWith newline
          (map (\<lambda>i. (if int i + 1 = target then ''>>>'' else ''   '') @ '' ''
                     @ padStart 3 (numberToString (int i + 1)) @ '': ''
                     @ splitOn CHR 0x0A content ! i)
             [nat (max 0 (target - 1 - 5)) ..<
              nat (min (int (length (splitOn CHR 0x0A content)) - 1) (target - 1 + 5) + 1)])
      \<and> nat (min (int (length (splitOn CHR 0x0A content)) - 1) (target - 1 + 5) + 1)
            \<le> length (splitOn CHR 0x0A content))
   \<and> (content \<noteq> [] \<and> t < 5000 \<longrightarrow>
        snippetOf (Resolved t (Some content)) target = Resolved t (renderSnippet content target))"
proof (intro conjI impI)
  let ?L = "splitOn CHR 0x0A content"
  let ?lo = "max 0 (target - 1 - 5)"
  let ?hi = "min (int (length ?L) - 1) (target - 1 + 5) + 1"
  assume tgt: "- 5 \<le> target"
  have n: "0 < length ?L" using splitOn_nonempty[of "CHR 0x0A" content] by simp
  have lo: "0 \<le> ?lo" by simp
  have hi: "0 \<le> ?hi" "?hi \<le> int (length ?L)" using tgt n by auto
  have "map (snippetLine target ?lo) (zip (jsSlice ?lo ?hi ?L) [0 ..< length (jsSlice ?lo ?hi ?L)])
          = map (\<lambda>i. snippetLine target ?lo (?L ! i, i - nat ?lo)) [nat ?lo ..< nat ?hi]"
    using lo hi by (rule jsSlice_window)
  also have "\<dots> = map (\<lambda>i. (if int i + 1 = target then ''>>>'' else ''   '') @ '' ''
                     @ padStart 3 (numberToString (int i + 1)) @ '': '' @ ?L ! i)
                  [nat ?lo ..< nat ?hi]"
  proof (rule map_cong[OF refl])
    fix i assume "i \<in> set [nat ?lo ..< nat ?hi]"
    then have "nat ?lo \<le> i" by simp
    then have "?lo + int (i - nat ?lo) + 1 = int i + 1" using lo by linarith
    then show "snippetLine target ?lo (?L ! i, i - nat ?lo)
                 = (if int i + 1 = target then ''>>>'' else ''   '') @ '' ''
                     @ padStart 3 (numberToString (int i + 1)) @ '': '' @ ?L ! i"
      by (simp add: snippetLine_def Let_def)
  qed
  finally show "renderSnippet content target =
        joinWith newline
          (map (\<lambda>i. (if int i + 1 = target then ''>>>'' else ''   '') @ '' ''
                     @ padStart 3 (numberToString (int i + 1)) @ '': '' @ ?L ! i)
             [nat ?lo ..< nat ?hi])"
    by (simp add: renderSnippet_def Let_def)
  show "nat ?hi \<le> length ?L" using hi by linarith
next
  assume "content \<noteq> [] \<and> t < 5000"
  then show "snippetOf (Resolved t (Some content)) target = Resolved t (renderSnippet content target)"
    by (simp add: snippetOf_def)
qed

lemma threeLines_split: "splitOn CHR 0x0A threeLines = [''a'', ''b'', ''c'']"
  by (simp add: threeLines_def newline_def)

lemma showNat_digit: "n < 10 \<Longrightarrow> showNat n = [digitChar n]"
  by (subst showNat.simps) simp

text \<open>Claim C6 on the three-line file: target line 2 is marked between its neighbours, and
  target line 20, beyond the end, gives the empty snippet without an error.\<close>

theorem renderSnippet_window_witness:
  "renderSnippet threeLines 2
     = ''      1: a'' @ newline @ ''>>>   2: b'' @ newline @ ''      3: c''
   \<and> renderSnippet threeLines 20 = []
   \<and> snippetOf (Resolved 40 (Some threeLines)) 20 = Resolved 40 []"
proof -
  have a: "- 5 \<le> (2::int)" "- 5 \<le> (20::int)" by simp_all
  have b: "threeLines \<noteq> [] \<and> (40::nat) < 5000" by (simp add: threeLines_def)
  from renderSnippet_window[of 2 threeLines 40] renderSnippet_window[of 20 threeLines 40] a b
  show ?thesis
    by (simp add: threeLines_split numberToString_def showNat_digit digitChar_def padStart_def
        upt_rec[of "Suc 0"] upt_rec[of 0] upt_rec[of 2] numeral_2_eq_2 numeral_3_eq_3)
qed

text \<open>Below \<open>-5\<close> the end index handed to \<open>slice\<close> is negative and counts from the end of the
  file; no caller row with a 1-based line reaches this case.\<close>

lemma renderSnippet_far_negative:
  "renderSnippet threeLines (- 6) = ''      1: a'' @ newline @ ''      2: b''"
  by (simp add: renderSnippet_def threeLines_split jsSlice_def snippetLine_def Let_def
      numberToString_def showNat_digit digitChar_def padStart_def
      upt_rec[of "Suc 0"] upt_rec[of 0] upt_rec[of 2] numeral_2_eq_2 numeral_3_eq_3)

subsection \<open>The relative path\<close>

lemma starGreedy_sound:
  "starGreedy p k s = Some r \<Longrightarrow>
   \<exists>pre rest. s = pre @ rest \<and> list_all p pre \<and> k rest = Some r"
proof (induction s)
  case Nil
  then show ?case by auto
next
  case (Cons c cs)
  show ?case
  proof (cases "p c \<and> starGreedy p k cs \<noteq> None")
    case True
    with Cons.prems have "starGreedy p k cs = Some r" by auto
    from Cons.IH[OF this] obtain pre rest
      where "cs = pre @ rest" "list_all p pre" "k rest = Some r" by blast
    with True have "c # cs = (c # pre) @ rest \<and> list_all p (c # pre) \<and> k rest = Some r"
      by simp
    then show ?thesis by blast
  next
    case False
    with Cons.prems have "k (c # cs) = Some r" by (auto split: if_splits option.splits)
    then have "c # cs = [] @ (c # cs) \<and> list_all p [] \<and> k (c # cs) = Some r" by simp
    then show ?thesis by blast
  qed
qed

lemma starGreedy_complete:
  "list_all p pre \<Longrightarrow> k rest \<noteq> None \<Longrightarrow> starGreedy p k (pre @ rest) \<noteq> None"
proof (induction pre)
  case Nil
  then show ?case by (cases rest) (auto split: option.splits)
next
  case (Cons c pre)
  then show ?case by (auto split: option.splits)
qed

lemma starGreedy_longest:
  "starGreedy p k s = Some r \<Longrightarrow>
   \<exists>pre rest. s = pre @ rest \<and> list_all p pre \<and> k rest = Some r
     \<and> (\<forall>pre' rest'. s = pre' @ rest' \<and> list_all p pre' \<and> length pre < length pre'
            \<longrightarrow> k rest' = None)"
proof (induction s)
  case Nil
  then show ?case by auto
next
  case (Cons c cs)
  show ?case
  proof (cases "p c \<and> starGreedy p k cs \<noteq> None")
    case True
    with Cons.prems have "starGreedy p k cs = Some r" by auto
    from Cons.IH[OF this] obtain pre rest
      where cs: "cs = pre @ rest" "list_all p pre" "k rest = Some r"
        and mx: "\<And>pre' rest'. cs = pre' @ rest' \<Longrightarrow> list_all p pre' \<Longrightarrow>
                   length pre < length pre' \<Longrightarrow> k rest' = None"
      by blast
    have "k rest' = None"
      if "c # cs = pre' @ rest'" "list_all p pre'" "length (c # pre) < length pre'"
      for pre' rest'
    proof -
      from that(3) obtain d pre'' where p': "pre' = d # pre''" by (cases pre') auto
      with that have "cs = pre'' @ rest'" "list_all p pre''" "length pre < length pre''"
        by auto
      then show ?thesis by (rule mx)
    qed
    with cs True
    have "c # cs = (c # pre) @ rest \<and> list_all p (c # pre) \<and> k rest = Some r
          \<and> (\<forall>pre' rest'. c # cs = pre' @ rest' \<and> list_all p pre'
                \<and> length (c # pre) < length pre' \<longrightarrow> k rest' = None)"
      by simp
    then show ?thesis by blast
  next
    case False
    with Cons.prems have here: "k (c # cs) = Some r"
      by (auto split: if_splits option.splits)
    have "k rest' = None"
      if "c # cs = pre' @ rest'" "list_all p pre'" "length ([]::string) < length pre'"
      for pre' rest'
    proof -
      from that(3) obtain d pre'' where p': "pre' = d # pre''" by (cases pre') auto
      with that have split: "d = c" "cs = pre'' @ rest'" "p c" "list_all p pre''" by auto
      with False have "starGreedy p k cs = None" by simp
      then have none: "starGreedy p k (pre'' @ rest') = None" using split(2) by simp
      show ?thesis
      proof (cases "k rest'")
        case None
        then show ?thesis .
      next
        case (Some y)
        then have "starGreedy p k (pre'' @ rest') \<noteq> None"
          by (intro starGreedy_complete[OF split(4)]) simp
        with none show ?thesis by simp
      qed
    qed
    with here
    have "c # cs = [] @ (c # cs) \<and> list_all p [] \<and> k (c # cs) = Some r
          \<and> (\<forall>pre' rest'. c # cs = pre' @ rest' \<and> list_all p pre'
                \<and> length ([]::string) < length pre' \<longrightarrow> k rest' = None)"
      by simp
    then show ?thesis by blast
  qed
qed

lemma literal_append: "literal lit k (lit @ rest) = k rest"
  by (induction lit) auto

lemma literal_sound: "literal lit k s = Some r \<Longrightarrow> \<exists>rest. s = lit @ rest \<and> k rest = Some r"
proof (induction lit arbitrary: s)
  case Nil
  then show ?case by simp
next
  case (Cons l ls)
  then show ?case by (cases s) (auto split: if_splits)
qed

lemma segment_then_slash:
  "list_all notSlash seg \<Longrightarrow>
   starGreedy notSlash (literal ''/'' k) (seg @ CHR ''/'' # rest) = k rest"
proof (induction seg)
  case Nil
  then show ?case by (simp add: notSlash_def)
next
  case (Cons c seg)
  then show ?case by (auto simp: notSlash_def split: option.splits)
qed

lemma captureStar_all:
  "list_all p s \<Longrightarrow> captureStar p endOfInput acc s = Some (acc @ s)"
  by (induction s arbitrary: acc) (auto simp: endOfInput_def)

lemma captureStar_sound:
  "captureStar p endOfInput acc s = Some r \<Longrightarrow> list_all p s \<and> r = acc @ s"
proof (induction s arbitrary: acc)
  case Nil
  then show ?case by (simp add: endOfInput_def)
next
  case (Cons c cs)
  have eoi: "endOfInput acc (c # cs) = None" by (simp add: endOfInput_def)
  from Cons.prems eoi have pc: "p c"
    by (auto split: if_splits)
  with Cons.prems eoi have "captureStar p endOfInput (acc @ [c]) cs = Some r"
    by (auto split: option.splits)
  from Cons.IH[OF this] pc show ?case by simp
qed

lemma capturePlus_iff:
  "capturePlus dot endOfInput s = Some r \<longleftrightarrow> s \<noteq> [] \<and> list_all dot s \<and> r = s"
proof (cases s)
  case Nil
  then show ?thesis by simp
next
  case (Cons c cs)
  then show ?thesis
    using captureStar_sound[of dot "[c]" cs r] captureStar_all[of dot cs "[c]"]
    by auto
qed

lemma list_all_dot: "list_all dot s \<longleftrightarrow> \<not> list_ex lineTerminator s"
  by (induction s) (auto simp: dot_def)

lemma list_all_notSlash: "list_all notSlash s \<longleftrightarrow> CHR ''/'' \<notin> set s"
  by (induction s) (auto simp: notSlash_def)

lemma afterPrefix_iff:
  "afterPrefix s = Some r \<longleftrightarrow> (\<exists>seg. repositoriesPattern s [] seg r)"
proof
  assume "afterPrefix s = Some r"
  then obtain s1 where s1: "s = ''/repositories/'' @ s1"
    and m1: "plusGreedy notSlash (literal ''/'' (capturePlus dot endOfInput)) s1 = Some r"
    unfolding afterPrefix_def by (blast dest: literal_sound)
  from m1 obtain c s2 where s2: "s1 = c # s2" "notSlash c"
    and m2: "starGreedy notSlash (literal ''/'' (capturePlus dot endOfInput)) s2 = Some r"
    by (cases s1) (auto split: if_splits)
  from starGreedy_sound[OF m2] obtain seg' s3 where s3: "s2 = seg' @ s3" "list_all notSlash seg'"
    and m3: "literal ''/'' (capturePlus dot endOfInput) s3 = Some r"
    by blast
  from literal_sound[OF m3] obtain s4 where s4: "s3 = ''/'' @ s4"
    and m4: "capturePlus dot endOfInput s4 = Some r"
    by blast
  from m4 have r: "s4 = r" "r \<noteq> []" "list_all dot r" by (auto simp: capturePlus_iff)
  have "repositoriesPattern s [] (c # seg') r"
    using s1 s2 s3 s4 r
    by (simp add: repositoriesPattern_def list_all_dot list_all_notSlash notSlash_def)
  then show "\<exists>seg. repositoriesPattern s [] seg r" ..
next
  assume "\<exists>seg. repositoriesPattern s [] seg r"
  then obtain seg where p: "repositoriesPattern s [] seg r" ..
  then obtain c seg' where seg: "seg = c # seg'" "notSlash c" "list_all notSlash seg'"
    by (cases seg) (auto simp: repositoriesPattern_def notSlash_def list_all_notSlash)
  from p have s: "s = ''/repositories/'' @ (c # seg' @ CHR ''/'' # r)"
    and r: "r \<noteq> []" "list_all dot r"
    by (simp_all add: repositoriesPattern_def seg list_all_dot)
  have "afterPrefix s = capturePlus dot endOfInput r"
    unfolding afterPrefix_def s literal_append
    using seg(2) segment_then_slash[OF seg(3)] by simp
  with r show "afterPrefix s = Some r" by (simp add: capturePlus_iff)
qed

lemma pattern_shift:
  "repositoriesPattern s [] seg r \<Longrightarrow> repositoriesPattern (pre @ s) pre seg r"
  by (simp add: repositoriesPattern_def)

lemma pattern_drop:
  "repositoriesPattern (pre @ s) pre seg r \<Longrightarrow> repositoriesPattern s [] seg r"
  by (simp add: repositoriesPattern_def)

lemma matchHere_sound:
  assumes "matchHere s = Some r"
  shows "\<exists>pre seg. repositoriesPattern s pre seg r"
proof -
  from starGreedy_sound[OF assms[unfolded matchHere_def]]
  obtain pre rest where s: "s = pre @ rest" and "afterPrefix rest = Some r" by blast
  then obtain seg where "repositoriesPattern rest [] seg r" by (auto simp: afterPrefix_iff)
  then have "repositoriesPattern s pre seg r" unfolding s by (rule pattern_shift)
  then show ?thesis by blast
qed

lemma pathMatch_sound:
  "pathMatch s = Some r \<Longrightarrow> \<exists>pre seg. repositoriesPattern s pre seg r"
proof (induction s)
  case Nil
  then show ?case by (auto dest: matchHere_sound)
next
  case (Cons c cs)
  show ?case
  proof (cases "matchHere (c # cs)")
    case None
    with Cons.prems have "pathMatch cs = Some r" by simp
    from Cons.IH[OF this] obtain pre seg where "repositoriesPattern cs pre seg r" by blast
    then have "repositoriesPattern (c # cs) (c # pre) seg r"
      by (simp add: repositoriesPattern_def)
    then show ?thesis by blast
  next
    case (Some r')
    with Cons.prems have "matchHere (c # cs) = Some r" by simp
    then show ?thesis by (rule matchHere_sound)
  qed
qed

lemma matchHere_pathMatch: "matchHere s = Some r \<Longrightarrow> pathMatch s = Some r"
  by (cases s) auto

lemma pathMatch_complete:
  "repositoriesPattern s pre seg r \<Longrightarrow> pathMatch s \<noteq> None"
proof (induction pre arbitrary: s)
  case Nil
  then have "afterPrefix s = Some r" by (auto simp: afterPrefix_iff)
  then have "starGreedy dot afterPrefix ([] @ s) \<noteq> None"
    by (intro starGreedy_complete) simp_all
  then obtain r' where "matchHere s = Some r'" by (auto simp: matchHere_def)
  then show ?case by (simp add: matchHere_pathMatch)
next
  case (Cons c pre)
  then obtain cs where s: "s = c # cs" and "repositoriesPattern cs pre seg r"
    by (auto simp: repositoriesPattern_def)
  from Cons.IH[OF this(2)] show ?case by (simp add: s split: option.splits)
qed

lemma pathMatch_last:
  assumes pat: "repositoriesPattern s pre seg r"
    and lt: "\<not> list_ex lineTerminator pre"
    and last: "\<And>pre' seg' r'. repositoriesPattern s pre' seg' r' \<Longrightarrow> length pre' \<le> length pre"
  shows "pathMatch s = Some r"
proof -
  let ?t = "''/repositories/'' @ seg @ ''/'' @ r"
  from pat have s: "s = pre @ ?t" by (simp add: repositoriesPattern_def)
  from pat have here: "afterPrefix ?t = Some r"
    unfolding afterPrefix_iff s by (blast dest: pattern_drop)
  from lt have dots: "list_all dot pre" by (simp add: list_all_dot)
  have "starGreedy dot afterPrefix (pre @ ?t) \<noteq> None"
    using dots here by (intro starGreedy_complete) simp_all
  then obtain r1 where m: "starGreedy dot afterPrefix s = Some r1" by (auto simp: s)
  from starGreedy_longest[OF m] obtain pre1 rest1
    where s1: "s = pre1 @ rest1" and a1: "afterPrefix rest1 = Some r1"
      and mx: "\<And>pre' rest'. s = pre' @ rest' \<Longrightarrow> list_all dot pre' \<Longrightarrow>
                 length pre1 < length pre' \<Longrightarrow> afterPrefix rest' = None"
    by blast
  from a1 obtain seg1 where "repositoriesPattern rest1 [] seg1 r1"
    by (auto simp: afterPrefix_iff)
  then have "repositoriesPattern s pre1 seg1 r1" unfolding s1 by (rule pattern_shift)
  then have le: "length pre1 \<le> length pre" by (rule last)
  have "\<not> length pre1 < length pre"
  proof
    assume "length pre1 < length pre"
    from mx[OF s dots this] here show False by simp
  qed
  with le have "length pre1 = length pre" by simp
  with s s1 have "pre1 = pre" "rest1 = ?t" by auto
  with a1 here have "r1 = r" by simp
  with m show ?thesis by (simp add: matchHere_pathMatch matchHere_def)
qed

lemma splitOn_none: "c \<notin> set s \<Longrightarrow> splitOn c s = [s]"
  by (induction s) auto

lemma splitOn_length: "length (splitOn c s) = Suc (length (filter (\<lambda>x. x = c) s))"
  by (induction s) (auto split: list.splits)

lemma splitOn_single: "length (splitOn c s) < 2 \<Longrightarrow> splitOn c s = [s]"
proof -
  assume "length (splitOn c s) < 2"
  then have "filter (\<lambda>x. x = c) s = []" by (simp add: splitOn_length)
  then have "c \<notin> set s" by (auto simp: filter_empty_conv)
  then show ?thesis by (rule splitOn_none)
qed

lemma last_two:
  assumes "2 \<le> length xs"
  shows "jsSliceFrom (- 2) xs = [xs ! (length xs - 2), last xs]"
proof -
  have "jsSliceFrom (- 2) xs = drop (length xs - 2) xs"
    using assms by (simp add: jsSliceFrom_def jsSlice_def Let_def nat_diff_distrib)
  also have "\<dots> = [xs ! (length xs - 2), last xs]"
  proof (rule nth_equalityI)
    show "length (drop (length xs - 2) xs) = length [xs ! (length xs - 2), last xs]"
      using assms by simp
  next
    fix i assume "i < length (drop (length xs - 2) xs)"
    then have "i < 2" using assms by simp
    then consider "i = 0" | "i = 1" by linarith
    then show "drop (length xs - 2) xs ! i = [xs ! (length xs - 2), last xs] ! i"
    proof cases
      case 1
      then show ?thesis using assms by simp
    next
      case 2
      have "xs \<noteq> []" using assms by auto
      then have "last xs = xs ! (length xs - 1)" by (rule last_conv_nth)
      moreover have "length xs - 2 + 1 = length xs - 1" using assms by simp
      ultimately show ?thesis using 2 assms by simp
    qed
  qed
  finally show ?thesis .
qed

lemma last_segments:
  "joinWith ''/'' (jsSliceFrom (- 2) (splitOn CHR ''/'' s)) =
     (if 2 \<le> length (splitOn CHR ''/'' s)
      then splitOn CHR ''/'' s ! (length (splitOn CHR ''/'' s) - 2) @ ''/''
             @ last (splitOn CHR ''/'' s)
      else s)"
proof (cases "2 \<le> length (splitOn CHR ''/'' s)")
  case True
  then show ?thesis by (simp add: last_two)
next
  case False
  then have "splitOn CHR ''/'' s = [s]" by (intro splitOn_single) simp
  then show ?thesis by (simp add: jsSliceFrom_def jsSlice_def)
qed

text \<open>
  Claim C10. If the store path has the shape prefix, \<open>/repositories/\<close>, one segment, slash,
  rest, then the relative path is the rest of such a reading of the path; when the path has
  several such readings and no line terminator before the segment, it is the rest of the
  reading with the longest prefix (the last \<open>/repositories/<segment>/\<close> of the path).
  If the path has no such reading, the relative path is its last two pieces between
  slashes, joined by a slash, or the whole path when it has no slash.
\<close>

theorem relativePath_pattern:
  "((\<exists>pre seg rest. repositoriesPattern p pre seg rest) \<longrightarrow>
      (\<exists>pre seg. repositoriesPattern p pre seg (relativePath p)))
   \<and> (repositoriesPattern p pre seg rest \<and> \<not> list_ex lineTerminator pre
        \<and> (\<forall>pre' seg' rest'. repositoriesPattern p pre' seg' rest' \<longrightarrow> length pre' \<le> length pre)
        \<longrightarrow> relativePath p = rest)
   \<and> (\<not> (\<exists>pre seg rest. repositoriesPattern p pre seg rest) \<longrightarrow>
        relativePath p =
          (if 2 \<le> length (splitOn CHR ''/'' p)
           then splitOn CHR ''/'' p ! (length (splitOn CHR ''/'' p) - 2) @ ''/''
                  @ last (splitOn CHR ''/'' p)
           else p))"
proof (intro conjI impI)
  assume "\<exists>pre seg rest. repositoriesPattern p pre seg rest"
  then obtain r where m: "pathMatch p = Some r"
    using pathMatch_complete by fastforce
  from pathMatch_sound[OF m] show "\<exists>pre seg. repositoriesPattern p pre seg (relativePath p)"
    by (simp add: relativePath_def m)
next
  assume a: "repositoriesPattern p pre seg rest \<and> \<not> list_ex lineTerminator pre
        \<and> (\<forall>pre' seg' rest'. repositoriesPattern p pre' seg' rest' \<longrightarrow> length pre' \<le> length pre)"
  then have "pathMatch p = Some rest"
    by (intro pathMatch_last[of p pre seg rest]) blast+
  then show "relativePath p = rest" by (simp add: relativePath_def)
next
  assume "\<not> (\<exists>pre seg rest. repositoriesPattern p pre seg rest)"
  then have "pathMatch p = None"
    using pathMatch_sound[of p] by (cases "pathMatch p") auto
  then show "relativePath p =
          (if 2 \<le> length (splitOn CHR ''/'' p)
           then splitOn CHR ''/'' p ! (length (splitOn CHR ''/'' p) - 2) @ ''/''
                  @ last (splitOn CHR ''/'' p)
           else p)"
    by (simp add: relativePath_def last_segments)
qed

lemmas matcher_eval =
  relativePath_def matchHere_def afterPrefix_def endOfInput_def dot_def notSlash_def
  lineTerminator_def

text \<open>Claim C10 on a path inside a checkout under \<open>repositories\<close>, on the shortest path of
  that shape, and on a path without \<open>repositories\<close>.\<close>

theorem relativePath_pattern_witness:
  "(\<exists>pre seg. repositoriesPattern ''/data/repositories/myrepo/src/a.ts'' pre seg
                 (relativePath ''/data/repositories/myrepo/src/a.ts''))
   \<and> relativePath ''/data/repositories/myrepo/src/a.ts'' = ''src/a.ts''
   \<and> relativePath ''/repositories/a/b'' = ''b''
   \<and> relativePath ''/srv/checkout/lib/util.py'' = ''lib/util.py''"
proof -
  have one: "\<exists>pre seg rest. repositoriesPattern ''/data/repositories/myrepo/src/a.ts'' pre seg rest"
  proof (intro exI)
    show "repositoriesPattern ''/data/repositories/myrepo/src/a.ts'' ''/data'' ''myrepo''
            ''src/a.ts''"
      by (simp add: repositoriesPattern_def lineTerminator_def)
  qed
  have two: "repositoriesPattern ''/repositories/a/b'' [] ''a'' ''b''
        \<and> \<not> list_ex lineTerminator []
        \<and> (\<forall>pre' seg' rest'. repositoriesPattern ''/repositories/a/b'' pre' seg' rest'
              \<longrightarrow> length pre' \<le> length ([]::string))"
  proof (intro conjI allI impI)
    show "repositoriesPattern ''/repositories/a/b'' [] ''a'' ''b''"
      by (simp add: repositoriesPattern_def lineTerminator_def)
    show "\<not> list_ex lineTerminator []" by simp
    fix pre' seg' rest'
    assume "repositoriesPattern ''/repositories/a/b'' pre' seg' rest'"
    then have eq: "''/repositories/a/b'' = pre' @ ''/repositories/'' @ seg' @ ''/'' @ rest'"
      and pos: "0 < length seg'" "0 < length rest'"
      by (simp_all add: repositoriesPattern_def)
    have "length ''/repositories/a/b''
            = length (pre' @ ''/repositories/'' @ seg' @ ''/'' @ rest')"
      by (subst eq[symmetric]) (rule refl)
    then have "17 = length pre' + 14 + length seg' + 1 + length rest'"
      by simp
    with pos have "length pre' = 0" by linarith
    then show "length pre' \<le> length ([]::string)" by simp
  qed
  have none: "pathMatch ''/srv/checkout/lib/util.py'' = None"
    by (simp add: matcher_eval)
  have three: "\<not> (\<exists>pre seg rest. repositoriesPattern ''/srv/checkout/lib/util.py'' pre seg rest)"
    using pathMatch_complete none by blast
  have evaluated: "relativePath ''/data/repositories/myrepo/src/a.ts'' = ''src/a.ts''"
    by (simp add: matcher_eval)
  from relativePath_pattern[of "''/data/repositories/myrepo/src/a.ts''"] one
  have a: "\<exists>pre seg. repositoriesPattern ''/data/repositories/myrepo/src/a.ts'' pre seg
                 (relativePath ''/data/repositories/myrepo/src/a.ts'')"
    by blast
  from relativePath_pattern[of "''/repositories/a/b''" "[]" "''a''" "''b''"] two
  have b: "relativePath ''/repositories/a/b'' = ''b''"
    by blast
  from relativePath_pattern[of "''/srv/checkout/lib/util.py''"] three
  have c: "relativePath ''/srv/checkout/lib/util.py'' = ''lib/util.py''"
    by simp
  from a evaluated b c show ?thesis by blast
qed

text \<open>With two readings the later one wins, as the greedy \<open>.*\<close> of the pattern has it.\<close>

lemma relativePath_two_readings:
  "relativePath ''/data/repositories/myrepo/src/repositories/x/b.ts'' = ''b.ts''"
  by (simp add: matcher_eval)

subsection \<open>Enrichment of the callers\<close>

lemma race_timeout_cases:
  "(\<exists>t v. t < d \<and> p = Resolved t v \<and> race_timeout d msg p = Resolved t v)
   \<or> (\<exists>t e. t \<le> d \<and> race_timeout d msg p = Rejected t e)"
  by (cases p) auto

lemma snippetOf_settles:
  "\<exists>t. t \<le> 5000 \<and> ((\<exists>x. snippetOf p ln = Resolved t x) \<or> (\<exists>e. snippetOf p ln = Rejected t e))"
  using race_timeout_cases[of 5000 p "''GitHub API timeout''"]
  by (auto simp: snippetOf_def split: option.splits)

lemma snippetOf_in_time:
  "t < 5000 \<Longrightarrow> content \<noteq> [] \<Longrightarrow>
   snippetOf (Resolved t (Some content)) ln = Resolved t (renderSnippet content ln)"
  by (simp add: snippetOf_def)

lemma codeExample_settles:
  "\<exists>t text. t \<le> 5000 \<and> codeExample env fn branch index c = Resolved t text"
  using snippetOf_settles[of "fetchFile env index branch (relativePath (path c))" "line c"]
  by (auto simp: codeExample_def Let_def)

lemma codeExample_snippet:
  assumes "fetchFile env index branch (relativePath (path c)) = Resolved t (Some content)"
    and "t < 5000" and "content \<noteq> []"
  shows "codeExample env fn branch index c =
           Resolved t (exampleText index (name c) (relativePath (path c)) (line c) fn
                         (renderSnippet content (line c)))"
  using assms by (simp add: codeExample_def Let_def snippetOf_in_time)

lemma codeExample_local:
  "fetchFile env' index = fetchFile env index \<Longrightarrow>
   codeExample env' fn branch index c = codeExample env fn branch index c"
  by (simp add: codeExample_def)

lemma lookup_found:
  assumes "queryRow env = Resolved t2 (Some callers)" and "callers \<noteq> []"
    and "repoBranch env = Resolved t3 branch"
    and "promise_all (map (\<lambda>(c, index). codeExample env fn branch index c)
                       (zip callers [0 ..< length callers])) = Resolved T texts"
  shows "lookup env k fn now s
           = (Resolved (t2 + (t3 + T)) (CodeExamples fn (length callers) texts), s)"
  using assms by (simp add: lookup_def getFunctionInfo_def)

lemma pipeline_found:
  assumes "connection env = Resolved t1 u1"
    and "lookup env k fn (now + int t1) s = (Resolved v r, s')"
    and "closing env = Resolved t4 u4"
  shows "pipeline env k fn now s = (Resolved (t1 + (v + t4)) r, s')"
  using assms by (simp add: pipeline_def)

lemma racedTime_le: "racedTime d p \<le> d"
  by (cases p) (simp_all add: racedTime_def)

lemma codeExample_exact:
  "\<exists>text. codeExample env fn branch index c
     = Resolved (racedTime 5000 (fetchFile env index branch (relativePath (path c)))) text"
proof (cases "fetchFile env index branch (relativePath (path c))")
  case (Resolved t v)
  then show ?thesis
    by (cases v) (auto simp: codeExample_def snippetOf_def racedTime_def Let_def min_def)
next
  case (Rejected t e)
  then show ?thesis
    by (auto simp: codeExample_def snippetOf_def racedTime_def Let_def min_def)
next
  case Pending
  then show ?thesis
    by (auto simp: codeExample_def snippetOf_def racedTime_def Let_def)
qed

lemma codeExample_unusable:
  assumes "case fetchFile env index branch (relativePath (path c)) of
             Resolved t v \<Rightarrow> 5000 \<le> t \<or> v = None \<or> v = Some []
           | Rejected t e \<Rightarrow> True | Pending \<Rightarrow> True"
  shows "\<exists>t. codeExample env fn branch index c =
           Resolved t (exampleText index (name c) (relativePath (path c)) (line c) fn
                         (fallbackSnippet (name c) (relativePath (path c)) (line c) fn))"
proof (cases "fetchFile env index branch (relativePath (path c))")
  case (Resolved t v)
  with assms show ?thesis
    by (cases v) (auto simp: codeExample_def snippetOf_def Let_def)
next
  case (Rejected t e)
  then show ?thesis by (auto simp: codeExample_def snippetOf_def Let_def)
next
  case Pending
  then show ?thesis by (auto simp: codeExample_def snippetOf_def Let_def)
qed

lemma promise_all_exact:
  assumes "\<And>x. x \<in> set xs \<Longrightarrow> \<exists>v. f x = Resolved (tm x) v"
  shows "\<exists>vs. promise_all (map f xs) = Resolved (foldr max (map tm xs) 0) vs
           \<and> length vs = length xs
           \<and> (\<forall>j < length xs. f (xs ! j) = Resolved (tm (xs ! j)) (vs ! j))"
  using assms
proof (induction xs)
  case Nil
  then show ?case by simp
next
  case (Cons x xs)
  from Cons.prems[of x] obtain v where v: "f x = Resolved (tm x) v" by auto
  from Cons.IH Cons.prems obtain vs
    where vs: "promise_all (map f xs) = Resolved (foldr max (map tm xs) 0) vs"
      "length vs = length xs"
      "\<forall>j < length xs. f (xs ! j) = Resolved (tm (xs ! j)) (vs ! j)"
    by auto
  have "\<forall>j < length (x # xs). f ((x # xs) ! j) = Resolved (tm ((x # xs) ! j)) ((v # vs) ! j)"
  proof (intro allI impI)
    fix j assume "j < length (x # xs)"
    then show "f ((x # xs) ! j) = Resolved (tm ((x # xs) ! j)) ((v # vs) ! j)"
      using v vs(3) by (cases j) auto
  qed
  with v vs
  have "promise_all (map f (x # xs)) = Resolved (foldr max (map tm (x # xs)) 0) (v # vs)
        \<and> length (v # vs) = length (x # xs)
        \<and> (\<forall>j < length (x # xs). f ((x # xs) ! j)
                                   = Resolved (tm ((x # xs) ! j)) ((v # vs) ! j))"
    by simp
  then show ?case by blast
qed

lemma foldr_max_le: "(\<And>x. x \<in> set xs \<Longrightarrow> x \<le> (B::nat)) \<Longrightarrow> foldr max xs 0 \<le> B"
  by (induction xs) auto

lemma enrichmentTime_le: "enrichmentTime env branch callers \<le> 5000"
  unfolding enrichmentTime_def
  by (rule foldr_max_le) (auto simp: racedTime_le)

lemma examples_exact:
  "\<exists>texts.
     promise_all (map (\<lambda>(c, index). codeExample env fn branch index c)
                    (zip callers [0 ..< length callers]))
       = Resolved (enrichmentTime env branch callers) texts
     \<and> length texts = length callers
     \<and> (\<forall>j < length callers.
           codeExample env fn branch j (callers ! j)
             = Resolved (racedTime 5000
                           (fetchFile env j branch (relativePath (path (callers ! j)))))
                 (texts ! j))"
proof -
  let ?xs = "zip callers [0 ..< length callers]"
  let ?f = "\<lambda>(c, index). codeExample env fn branch index c"
  let ?tm = "\<lambda>(c, index). racedTime 5000 (fetchFile env index branch (relativePath (path c)))"
  have "\<exists>v. ?f x = Resolved (?tm x) v" for x
    using codeExample_exact[of env fn branch "snd x" "fst x"] by (cases x) simp
  from promise_all_exact[of ?xs ?f ?tm, OF this] obtain texts
    where r: "promise_all (map ?f ?xs) = Resolved (foldr max (map ?tm ?xs) 0) texts"
      "length texts = length ?xs"
      "\<forall>j < length ?xs. ?f (?xs ! j) = Resolved (?tm (?xs ! j)) (texts ! j)"
    by blast
  have "\<forall>j < length callers.
           codeExample env fn branch j (callers ! j)
             = Resolved (racedTime 5000
                           (fetchFile env j branch (relativePath (path (callers ! j)))))
                 (texts ! j)"
  proof (intro allI impI)
    fix j assume j: "j < length callers"
    with r(3) have "?f (?xs ! j) = Resolved (?tm (?xs ! j)) (texts ! j)" by simp
    with j show "codeExample env fn branch j (callers ! j)
             = Resolved (racedTime 5000
                           (fetchFile env j branch (relativePath (path (callers ! j)))))
                 (texts ! j)"
      by simp
  qed
  with r(1,2) show ?thesis by (auto simp: enrichmentTime_def)
qed

text \<open>
  Claim C7, amended. Take a request for a valid repository whose graph exists, with the
  store connection, the query (returning at least one caller), the branch lookup, the close
  and the disconnect all fulfilling. The enrichment of each caller never raises: it
  fulfils when its fetch settles or after 5000 ms, whichever comes first. If the fetch is
  rejected, has not settled within 5000 ms, or delivers no string or an empty one, the entry
  is built from the fallback text, which names the caller, file, line and searched function
  and says that the content is temporarily unavailable; if a non-empty file arrives in
  time, the entry carries the rendered snippet. The request returns the success payload
  with every caller's entry, in the order of the query, when the pipeline (connection,
  query, branch lookup, the slowest enrichment, close) finishes before the deadline of
  8000 ms; when it does not, the response is the timeout advisory.
\<close>

theorem enrichment_degrades:
  assumes "owner rd = Some o1" and "repo rd = Some r1" and "\<not> blank o1" and "\<not> blank r1"
    and "checkGraphExists r1 (listing env) = Resolved t0 True"
    and "connection env = Resolved t1 u1"
    and "queryRow env = Resolved t2 (Some callers)" and "callers \<noteq> []"
    and "repoBranch env = Resolved t3 branch"
    and "closing env = Resolved t4 u4"
    and "disconnecting env = Resolved t5 u5"
  shows "\<exists>texts.
           length texts = length callers
           \<and> enrichmentTime env branch callers \<le> 5000
           \<and> (\<forall>j < length callers.
                 codeExample env fn branch j (callers ! j)
                   = Resolved (racedTime 5000
                                 (fetchFile env j branch (relativePath (path (callers ! j)))))
                       (texts ! j)
                 \<and> ((case fetchFile env j branch (relativePath (path (callers ! j))) of
                        Resolved t v \<Rightarrow> 5000 \<le> t \<or> v = None \<or> v = Some []
                      | Rejected t e \<Rightarrow> True | Pending \<Rightarrow> True)
                      \<longrightarrow> texts ! j =
                            exampleText j (name (callers ! j))
                              (relativePath (path (callers ! j))) (line (callers ! j)) fn
                              (fallbackSnippet (name (callers ! j))
                                 (relativePath (path (callers ! j))) (line (callers ! j)) fn))
                 \<and> (\<forall>t content.
                        fetchFile env j branch (relativePath (path (callers ! j)))
                          = Resolved t (Some content) \<and> t < 5000 \<and> content \<noteq> []
                        \<longrightarrow> texts ! j =
                              exampleText j (name (callers ! j))
                                (relativePath (path (callers ! j))) (line (callers ! j)) fn
                                (renderSnippet content (line (callers ! j)))))
           \<and> (t1 + t2 + t3 + enrichmentTime env branch callers + t4 < 8000 \<longrightarrow>
                 fst (fetchUsageCodeExamples env rd fn now s)
                   = Resolved (t0 + (t1 + (t2 + (t3 + enrichmentTime env branch callers) + t4) + t5))
                       (CodeExamples fn (length callers) texts))
           \<and> (8000 \<le> t1 + t2 + t3 + enrichmentTime env branch callers + t4 \<longrightarrow>
                 fst (fetchUsageCodeExamples env rd fn now s)
                   = Resolved (t0 + (8000 + t5)) (SearchTimeout fn))"
proof -
  let ?k = "o1 @ ''/'' @ r1"
  let ?E = "enrichmentTime env branch callers"
  from examples_exact[of env fn branch callers] obtain texts
    where all: "promise_all (map (\<lambda>(c, index). codeExample env fn branch index c)
                              (zip callers [0 ..< length callers])) = Resolved ?E texts"
      and len: "length texts = length callers"
      and each: "\<And>j. j < length callers \<Longrightarrow>
                   codeExample env fn branch j (callers ! j)
                     = Resolved (racedTime 5000
                          (fetchFile env j branch (relativePath (path (callers ! j)))))
                         (texts ! j)"
    by blast
  note lk = lookup_found[OF assms(7,8,9) all, of ?k "now + int t0 + int t1" s]
  note pl = pipeline_found[OF assms(6) lk assms(10)]
  have ge: "fst (graphExistsBranch env ?k fn (now + int t0) s)
              = (if t1 + (t2 + (t3 + ?E) + t4) < 8000
                 then Resolved (t1 + (t2 + (t3 + ?E) + t4)) (CodeExamples fn (length callers) texts)
                 else Resolved 8000 (SearchTimeout fn))"
    using pl by (simp add: graphExistsBranch_def)
  have resp: "fst (fetchUsageCodeExamples env rd fn now s)
      = (if t1 + (t2 + (t3 + ?E) + t4) < 8000
         then Resolved (t0 + (t1 + (t2 + (t3 + ?E) + t4) + t5))
                (CodeExamples fn (length callers) texts)
         else Resolved (t0 + (8000 + t5)) (SearchTimeout fn))"
    using assms(11) ge by (simp add: fetch_graph_exists[OF assms(1-5)])
  have entries: "codeExample env fn branch j (callers ! j)
                   = Resolved (racedTime 5000
                                 (fetchFile env j branch (relativePath (path (callers ! j)))))
                       (texts ! j)
      \<and> ((case fetchFile env j branch (relativePath (path (callers ! j))) of
             Resolved t v \<Rightarrow> 5000 \<le> t \<or> v = None \<or> v = Some []
           | Rejected t e \<Rightarrow> True | Pending \<Rightarrow> True)
           \<longrightarrow> texts ! j =
                 exampleText j (name (callers ! j))
                   (relativePath (path (callers ! j))) (line (callers ! j)) fn
                   (fallbackSnippet (name (callers ! j))
                      (relativePath (path (callers ! j))) (line (callers ! j)) fn))
      \<and> (\<forall>t content.
             fetchFile env j branch (relativePath (path (callers ! j)))
               = Resolved t (Some content) \<and> t < 5000 \<and> content \<noteq> []
             \<longrightarrow> texts ! j =
                   exampleText j (name (callers ! j))
                     (relativePath (path (callers ! j))) (line (callers ! j)) fn
                     (renderSnippet content (line (callers ! j))))"
    if j: "j < length callers" for j
  proof (intro conjI impI allI)
    note t = each[OF j]
    show "codeExample env fn branch j (callers ! j)
            = Resolved (racedTime 5000
                          (fetchFile env j branch (relativePath (path (callers ! j)))))
                (texts ! j)"
      by (rule t)
    show "texts ! j =
            exampleText j (name (callers ! j))
              (relativePath (path (callers ! j))) (line (callers ! j)) fn
              (fallbackSnippet (name (callers ! j))
                 (relativePath (path (callers ! j))) (line (callers ! j)) fn)"
      if "case fetchFile env j branch (relativePath (path (callers ! j))) of
            Resolved t v \<Rightarrow> 5000 \<le> t \<or> v = None \<or> v = Some []
          | Rejected t e \<Rightarrow> True | Pending \<Rightarrow> True"
      using codeExample_unusable[OF that, of fn] t by auto
    show "texts ! j =
            exampleText j (name (callers ! j))
              (relativePath (path (callers ! j))) (line (callers ! j)) fn
              (renderSnippet content (line (callers ! j)))"
      if "fetchFile env j branch (relativePath (path (callers ! j)))
            = Resolved u (Some content) \<and> u < 5000 \<and> content \<noteq> []"
      for u content
      using codeExample_snippet[of env j branch "callers ! j" u content fn] that t by auto
  qed
  have fast: "fst (fetchUsageCodeExamples env rd fn now s)
                   = Resolved (t0 + (t1 + (t2 + (t3 + ?E) + t4) + t5))
                       (CodeExamples fn (length callers) texts)"
    if "t1 + t2 + t3 + ?E + t4 < 8000"
    using that resp by simp
  have slow: "fst (fetchUsageCodeExamples env rd fn now s)
                   = Resolved (t0 + (8000 + t5)) (SearchTimeout fn)"
    if "8000 \<le> t1 + t2 + t3 + ?E + t4"
    using that resp by simp
  from len enrichmentTime_le[of env branch callers] entries fast slow
  show ?thesis by blast
qed

lemma twoCallers_paths:
  "relativePath ''/x/repositories/r/src/a.ts'' = ''src/a.ts''"
  "relativePath ''/x/repositories/r/src/b.ts'' = ''src/b.ts''"
  by (simp_all add: matcher_eval)

lemma twoCallers_length: "length twoCallers = 2"
  by (simp add: twoCallers_def)

lemma degradedEnv_time: "enrichmentTime degradedEnv ''main'' twoCallers = 5000"
  by (simp add: enrichmentTime_def racedTime_def degradedEnv_def twoCallers_def
      upt_rec[of 0] upt_rec[of 1] upt_rec[of "Suc 0"] numeral_2_eq_2)

lemma hungEnv_time: "enrichmentTime hungEnv ''main'' twoCallers = 5000"
  by (simp add: enrichmentTime_def racedTime_def hungEnv_def promptEnv_def twoCallers_def
      upt_rec[of 0] upt_rec[of 1] upt_rec[of "Suc 0"] numeral_2_eq_2)

text \<open>Claim C7, amended, on the request in which the first file never arrives: behind the
  fast store the response, after 5068 ms, is the success payload with both entries, the
  first built from the fallback text and the second from the snippet; behind the slow
  store the pipeline would end after 8501 ms and the response is the timeout advisory.\<close>

theorem enrichment_degrades_witness:
  "fst (fetchUsageCodeExamples degradedEnv exampleRepo ''fn'' 1000000 initial_state)
     = Resolved 5068
         (CodeExamples ''fn'' 2
            [exampleText 0 ''f'' ''src/a.ts'' 2 ''fn''
               (fallbackSnippet ''f'' ''src/a.ts'' 2 ''fn''),
             exampleText 1 ''g'' ''src/b.ts'' 1 ''fn'' (renderSnippet threeLines 1)])
   \<and> fst (fetchUsageCodeExamples hungEnv exampleRepo ''fn'' 1000000 initial_state)
     = Resolved 8012 (SearchTimeout ''fn'')"
proof -
  have a: "owner exampleRepo = Some ''o''" "repo exampleRepo = Some ''r''"
    by (simp_all add: exampleRepo_def)
  have e: "checkGraphExists ''r'' (listing degradedEnv) = Resolved 10 True"
    "connection degradedEnv = Resolved 5 ()"
    "queryRow degradedEnv = Resolved 20 (Some twoCallers)" "twoCallers \<noteq> []"
    "repoBranch degradedEnv = Resolved 30 ''main''"
    "closing degradedEnv = Resolved 1 ()"
    "disconnecting degradedEnv = Resolved 2 ()"
    by (simp_all add: degradedEnv_def twoCallers_def)
  have h: "checkGraphExists ''r'' (listing hungEnv) = Resolved 10 True"
    "connection hungEnv = Resolved 1000 ()"
    "queryRow hungEnv = Resolved 1500 (Some twoCallers)" "twoCallers \<noteq> []"
    "repoBranch hungEnv = Resolved 1000 ''main''"
    "closing hungEnv = Resolved 1 ()"
    "disconnecting hungEnv = Resolved 2 ()"
    by (simp_all add: hungEnv_def promptEnv_def twoCallers_def)
  have f0: "case fetchFile degradedEnv 0 ''main'' (relativePath (path (twoCallers ! 0))) of
              Resolved t v \<Rightarrow> 5000 \<le> t \<or> v = None \<or> v = Some []
            | Rejected t e \<Rightarrow> True | Pending \<Rightarrow> True"
    by (simp add: degradedEnv_def)
  have f1: "fetchFile degradedEnv 1 ''main'' (relativePath (path (twoCallers ! 1)))
              = Resolved 40 (Some threeLines) \<and> (40::nat) < 5000 \<and> threeLines \<noteq> []"
    by (simp add: degradedEnv_def threeLines_def)
  have lt: "0 < length twoCallers" "1 < length twoCallers"
    by (simp_all add: twoCallers_length)
  have fast: "5 + 20 + 30 + enrichmentTime degradedEnv ''main'' twoCallers + 1 < 8000"
    by (simp add: degradedEnv_time)
  have slow: "8000 \<le> 1000 + 1500 + 1000 + enrichmentTime hungEnv ''main'' twoCallers + 1"
    by (simp add: hungEnv_time)
  from enrichment_degrades[OF a blank_o blank_r e, of "''fn''" 1000000 initial_state]
  obtain texts
    where l: "length texts = length twoCallers"
      and each: "\<And>j. j < length twoCallers \<Longrightarrow>
          ((case fetchFile degradedEnv j ''main'' (relativePath (path (twoCallers ! j))) of
              Resolved t v \<Rightarrow> 5000 \<le> t \<or> v = None \<or> v = Some []
            | Rejected t e \<Rightarrow> True | Pending \<Rightarrow> True)
            \<longrightarrow> texts ! j =
                  exampleText j (name (twoCallers ! j))
                    (relativePath (path (twoCallers ! j))) (line (twoCallers ! j)) ''fn''
                    (fallbackSnippet (name (twoCallers ! j))
                       (relativePath (path (twoCallers ! j))) (line (twoCallers ! j)) ''fn''))
          \<and> (\<forall>t content.
                 fetchFile degradedEnv j ''main'' (relativePath (path (twoCallers ! j)))
                   = Resolved t (Some content) \<and> t < 5000 \<and> content \<noteq> []
                 \<longrightarrow> texts ! j =
                       exampleText j (name (twoCallers ! j))
                         (relativePath (path (twoCallers ! j))) (line (twoCallers ! j)) ''fn''
                         (renderSnippet content (line (twoCallers ! j))))"
      and resp: "5 + 20 + 30 + enrichmentTime degradedEnv ''main'' twoCallers + 1 < 8000 \<longrightarrow>
          fst (fetchUsageCodeExamples degradedEnv exampleRepo ''fn'' 1000000 initial_state)
            = Resolved (10 + (5 + (20 + (30 + enrichmentTime degradedEnv ''main'' twoCallers) + 1)
                              + 2))
                (CodeExamples ''fn'' (length twoCallers) texts)"
    by blast
  from each[OF lt(1)] f0
  have t0: "texts ! 0 = exampleText 0 ''f'' ''src/a.ts'' 2 ''fn''
                          (fallbackSnippet ''f'' ''src/a.ts'' 2 ''fn'')"
    by (simp add: twoCallers_def twoCallers_paths)
  from each[OF lt(2)] f1
  have "texts ! 1 = exampleText 1 (name (twoCallers ! 1))
                         (relativePath (path (twoCallers ! 1))) (line (twoCallers ! 1)) ''fn''
                         (renderSnippet threeLines (line (twoCallers ! 1)))"
    by blast
  then have t1: "texts ! 1 = exampleText 1 ''g'' ''src/b.ts'' 1 ''fn'' (renderSnippet threeLines 1)"
    by (simp add: twoCallers_def twoCallers_paths)
  from l twoCallers_length have "texts = [texts ! 0, texts ! 1]"
    by (cases texts; cases "tl texts") auto
  with t0 t1 have texts: "texts = [exampleText 0 ''f'' ''src/a.ts'' 2 ''fn''
                   (fallbackSnippet ''f'' ''src/a.ts'' 2 ''fn''),
                 exampleText 1 ''g'' ''src/b.ts'' 1 ''fn'' (renderSnippet threeLines 1)]"
    by simp
  from resp fast
  have ok: "fst (fetchUsageCodeExamples degradedEnv exampleRepo ''fn'' 1000000 initial_state)
            = Resolved (10 + (5 + (20 + (30 + enrichmentTime degradedEnv ''main'' twoCallers) + 1)
                              + 2))
                (CodeExamples ''fn'' (length twoCallers) texts)"
    by blast
  from enrichment_degrades[OF a blank_o blank_r h, of "''fn''" 1000000 initial_state] slow
  have late: "fst (fetchUsageCodeExamples hungEnv exampleRepo ''fn'' 1000000 initial_state)
                = Resolved (10 + (8000 + 2)) (SearchTimeout ''fn'')"
    by blast
  from ok late show ?thesis
    by (simp add: degradedEnv_time twoCallers_length texts)
qed

text \<open>The fallback text of the first caller of that request.\<close>

lemma fallbackSnippet_example:
  "fallbackSnippet ''f'' ''src/a.ts'' 2 ''fn''
     = ''Function: f'' @ newline @ ''File: src/a.ts:2'' @ newline @ ''Calls: fn'' @ newline
       @ newline @ ''(Code content temporarily unavailable)''"
  by (simp add: fallbackSnippet_def numberToString_def showNat_digit digitChar_def)

lemma threeLines_nonempty: "threeLines \<noteq> []"
  by (simp add: threeLines_def)

lemmas handler_eval =
  fetchUsageCodeExamples_def graphExistsBranch_def pipeline_def lookup_def getFunctionInfo_def
  codeExample_def snippetOf_def exampleRepo_def twoCallers_def twoCallers_paths
  threeLines_nonempty blank_o blank_r Let_def

text \<open>
  Claim C7 as stated fails. With both files arriving, the request answers after 3553 ms
  with the two entries. When the fetch of the first caller hangs, its enrichment does
  degrade without raising, after the 5 seconds of its own deadline; but by then the
  pipeline is past the 8 second deadline of the whole operation, and the response is the
  timeout advisory instead of the success payload.
\<close>

theorem enrichment_degrades_counterexample:
  "fst (fetchUsageCodeExamples promptEnv exampleRepo ''fn'' 1000000 initial_state)
     = Resolved 3553
         (CodeExamples ''fn'' 2
            [exampleText 0 ''f'' ''src/a.ts'' 2 ''fn'' (renderSnippet threeLines 2),
             exampleText 1 ''g'' ''src/b.ts'' 1 ''fn'' (renderSnippet threeLines 1)])
   \<and> fetchFile hungEnv 0 ''main'' ''src/a.ts'' = Pending
   \<and> codeExample hungEnv ''fn'' ''main'' 0 (twoCallers ! 0)
     = Resolved 5000 (exampleText 0 ''f'' ''src/a.ts'' 2 ''fn''
                        (fallbackSnippet ''f'' ''src/a.ts'' 2 ''fn''))
   \<and> fst (fetchUsageCodeExamples hungEnv exampleRepo ''fn'' 1000000 initial_state)
     = Resolved 8012 (SearchTimeout ''fn'')"
  by (simp add: handler_eval promptEnv_def hungEnv_def upt_rec[of 0] upt_rec[of 1]
      upt_rec[of "Suc 0"] numeral_2_eq_2)

end
